theory Spec2Isabelle
  imports Complex_Main "HOL-Library.Word"
begin

section \<open>The camera test program \<open>camtest\<close> (src/main.cpp)\<close>

text \<open>
  The program parses its command line, derives a device number, a resolution and a pixel
  format, opens the capture device, and counts the frames it reads for five seconds.
  The model follows \<open>main.cpp\<close> function by function. Everything the program does
  besides computing values is written out: its output and its calls on the capture device
  are a list of effects, the camera and the clock are inputs, and every way of not
  returning normally (an uncaught exception, undefined behaviour, a read that never
  comes back) is a value of the result type.
\<close>

subsection \<open>Ways of not returning\<close>

text \<open>
  \<open>ReadPastEnd\<close>: \<open>argv[++i]\<close> is evaluated with \<open>i + 1 = argc\<close>, so the token read
  is not one of the \<open>argc\<close> tokens (it is the terminating null pointer, from which a
  \<open>std::string\<close> is then built). \<open>SignedOverflow\<close>: \<open>++\<close> on an \<open>int\<close> that holds
  \<open>INT_MAX\<close>, or a difference of two clock readings that does not fit a signed 64-bit
  integer. Both are undefined behaviour in C++.
\<close>

datatype fault = ReadPastEnd | SignedOverflow

text \<open>The exceptions \<open>std::stoi\<close> throws; \<open>main\<close> catches neither.\<close>

datatype exn = invalid_argument | out_of_range

definition INT_MAX :: int where
  "INT_MAX = 2147483647"

definition INT_MIN :: int where
  "INT_MIN = - 2147483648"

subsection \<open>parseArgs\<close>

text \<open>
  \<open>std::map<std::string, std::string>\<close> is a partial map; \<open>argv\<close> is the list of the
  \<open>argc\<close> tokens, the program name first. The \<open>for\<close> loop is a recursion on the
  index \<open>i\<close>; each value-taking branch reads \<open>argv[++i]\<close> and the loop header adds one
  more, so the recursive call is at \<open>i + 2\<close>. The branches stand in the order of the
  source, the test for the help tokens first.
\<close>

type_synonym args = "string \<rightharpoonup> string"

function parseArgs_loop :: "string list \<Rightarrow> nat \<Rightarrow> args \<Rightarrow> fault + args" where
  "parseArgs_loop argv i args =
     (if i < length argv then
        (let key = argv ! i in
         if key = ''-h'' \<or> key = ''--help'' then Inr (args(''help'' \<mapsto> ''1''))
         else if key = ''-d'' \<or> key = ''--device'' then
           (if i + 1 < length argv
            then parseArgs_loop argv (i + 2) (args(''device'' \<mapsto> argv ! (i + 1)))
            else Inl ReadPastEnd)
         else if key = ''-w'' \<or> key = ''--width'' then
           (if i + 1 < length argv
            then parseArgs_loop argv (i + 2) (args(''width'' \<mapsto> argv ! (i + 1)))
            else Inl ReadPastEnd)
         else if key = ''-h'' \<or> key = ''--height'' then
           (if i + 1 < length argv
            then parseArgs_loop argv (i + 2) (args(''height'' \<mapsto> argv ! (i + 1)))
            else Inl ReadPastEnd)
         else if key = ''-f'' \<or> key = ''--format'' then
           (if i + 1 < length argv
            then parseArgs_loop argv (i + 2) (args(''format'' \<mapsto> argv ! (i + 1)))
            else Inl ReadPastEnd)
         else if key = ''-r'' \<or> key = ''--resolution'' then
           (if i + 1 < length argv
            then parseArgs_loop argv (i + 2) (args(''resolution'' \<mapsto> argv ! (i + 1)))
            else Inl ReadPastEnd)
         else if key = ''-s'' \<or> key = ''--fps'' then
           (if i + 1 < length argv
            then parseArgs_loop argv (i + 2) (args(''fps'' \<mapsto> argv ! (i + 1)))
            else Inl ReadPastEnd)
         else parseArgs_loop argv (i + 1) args)
      else Inr args)"
  by pat_completeness auto
termination
  by (relation "measure (\<lambda>(argv, i, args). length argv - i)") auto

declare parseArgs_loop.simps [simp del]

definition parseArgs :: "string list \<Rightarrow> fault + args" where
  "parseArgs argv = parseArgs_loop argv 1 Map.empty"

subsection \<open>Decimal numerals: \<open>std::stoi\<close> and the stream's \<open>operator>>\<close>\<close>

text \<open>
  Both library functions read a decimal numeral the same way (C++ standard, 21.3.4
  \<open>stoi\<close> through \<open>strtol\<close> with base 10; 25.4.2.1.2 \<open>num_get\<close> with the
  conversion \<open>%d\<close>): white space is skipped, one sign may follow, then the longest run of
  digits is taken. No digit is a failure, and so is a value outside the range of
  \<open>int\<close>. The white space is that of the C locale.
\<close>

definition isspace :: "char \<Rightarrow> bool" where
  "isspace c \<longleftrightarrow> c \<in> {CHR '' '', CHR 0x09, CHR 0x0A, CHR 0x0B, CHR 0x0C, CHR 0x0D}"

definition isdigit :: "char \<Rightarrow> bool" where
  "isdigit c \<longleftrightarrow> c \<in> set ''0123456789''"

definition digit_val :: "char \<Rightarrow> int" where
  "digit_val c = of_char c - 48"

definition digits_val :: "string \<Rightarrow> int" where
  "digits_val ds = foldl (\<lambda>a c. 10 * a + digit_val c) 0 ds"

text \<open>
  \<open>scan_int s\<close> is the numeral at the front of \<open>s\<close>: \<open>None\<close> when there is no digit,
  otherwise its value (not yet compared with the range of \<open>int\<close>) and the text after its
  last digit.
\<close>

definition scan_int :: "string \<Rightarrow> (int \<times> string) option" where
  "scan_int s =
     (let s1 = dropWhile isspace s;
          neg = (s1 \<noteq> [] \<and> hd s1 = CHR ''-'');
          s2 = (if s1 \<noteq> [] \<and> (hd s1 = CHR ''-'' \<or> hd s1 = CHR ''+'') then tl s1 else s1);
          ds = takeWhile isdigit s2
      in if ds = [] then None
         else Some (if neg then - digits_val ds else digits_val ds, dropWhile isdigit s2))"

definition stoi :: "string \<Rightarrow> exn + int" where
  "stoi s =
     (case scan_int s of
        None \<Rightarrow> Inl invalid_argument
      | Some (v, rest) \<Rightarrow> if v < INT_MIN \<or> INT_MAX < v then Inl out_of_range else Inr v)"

text \<open>\<open>ss >> n\<close> for an \<open>int n\<close>: the value and the rest of the stream, or failure.\<close>

definition read_int :: "string \<Rightarrow> (int \<times> string) option" where
  "read_int s =
     (case scan_int s of
        None \<Rightarrow> None
      | Some (v, rest) \<Rightarrow> if v < INT_MIN \<or> INT_MAX < v then None else Some (v, rest))"

text \<open>\<open>ss >> c\<close> for a \<open>char c\<close>: the first character that is not white space.\<close>

definition read_char :: "string \<Rightarrow> (char \<times> string) option" where
  "read_char s =
     (case dropWhile isspace s of
        [] \<Rightarrow> None
      | c # rest \<Rightarrow> Some (c, rest))"

subsection \<open>parseResolution\<close>

text \<open>
  The chain \<open>ss >> width >> x >> height >> at >> fps\<close> stops at the first extraction that
  fails; the function returns \<open>true\<close> when all five succeeded and the two characters are
  \<open>x\<close> and \<open>@\<close>. \<open>Some (width, height, fps)\<close> is the return value \<open>true\<close> with the
  three values stored through the references, \<open>None\<close> is \<open>false\<close> (after which
  \<open>main\<close> reads none of the three variables).
\<close>

definition parseResolution :: "string \<Rightarrow> (int \<times> int \<times> int) option" where
  "parseResolution res =
     (case read_int res of
        None \<Rightarrow> None
      | Some (width, r1) \<Rightarrow>
     (case read_char r1 of
        None \<Rightarrow> None
      | Some (x, r2) \<Rightarrow>
     (case read_int r2 of
        None \<Rightarrow> None
      | Some (height, r3) \<Rightarrow>
     (case read_char r3 of
        None \<Rightarrow> None
      | Some (at', r4) \<Rightarrow>
     (case read_int r4 of
        None \<Rightarrow> None
      | Some (fps, r5) \<Rightarrow>
          if x = CHR ''x'' \<and> at' = CHR ''@'' then Some (width, height, fps) else None)))))"

subsection \<open>fourccFromString\<close>

text \<open>
  \<open>cv::VideoWriter::fourcc\<close> is OpenCV's; its documented body is
  \<open>(c1 & 255) + ((c2 & 255) << 8) + ((c3 & 255) << 16) + ((c4 & 255) << 24)\<close>.
  The \<open>int\<close> it returns is a 32-bit word here (\<open>sint\<close> reads it as the C++ value), and
  \<open>c & 255\<close> is the byte of the character.
\<close>

definition fourcc :: "char \<Rightarrow> char \<Rightarrow> char \<Rightarrow> char \<Rightarrow> 32 word" where
  "fourcc c1 c2 c3 c4 =
     of_char c1 + push_bit 8 (of_char c2) + push_bit 16 (of_char c3) + push_bit 24 (of_char c4)"

definition fourccFromString :: "string \<Rightarrow> 32 word" where
  "fourccFromString format =
     (if length format \<noteq> 4 then 0
      else fourcc (format ! 0) (format ! 1) (format ! 2) (format ! 3))"

subsection \<open>The device number\<close>

text \<open>
  Lines 76 to 81 of \<open>main\<close>: \<open>device_str.rfind("/dev/video", 0) == 0\<close> holds exactly
  when \<open>device_str\<close> starts with that text, and \<open>substr(10)\<close> drops its ten characters.
\<close>

definition device_of :: "string \<Rightarrow> exn + int" where
  "device_of device_str =
     (if take 10 device_str = ''/dev/video'' then stoi (drop 10 device_str)
      else stoi device_str)"

subsection \<open>Effects and results of a run\<close>

text \<open>
  What the program writes and what it does to the capture device, in order. The texts
  are fixed by the source, so an effect keeps only the values printed: \<open>Usage p\<close> is
  the help text for the program name \<open>p\<close>, and the constructors that start with
  \<open>Err\<close> go to the error stream. \<open>Summary n s\<close> is the line
  \<open>Captured n frames in s seconds. Average FPS: a\<close>, where \<open>a\<close> is what the stream
  prints for the \<open>double\<close> that \<open>n / (double)s\<close> yields: the effect keeps the two
  operands of that division, which fix the line; the floating-point quotient and its
  printed digits are not computed here.
\<close>

datatype effect =
    Usage string
  | ErrInvalidResolution
  | ErrInvalidFormat string
  | Open int
  | ErrOpenFailed int
  | SetWidth int
  | SetHeight int
  | SetFourcc "32 word"
  | SetFps int
  | Testing int int int string
  | CurrentFPS int
  | ErrCaptureFailed
  | Summary int int
  | Release

text \<open>
  \<open>Exit n\<close> is \<open>return n\<close> from \<open>main\<close>; \<open>Terminate e\<close> is the uncaught exception
  \<open>e\<close>; \<open>Blocked\<close> is a run whose camera delivers nothing more, so that
  \<open>cap.read\<close> does not come back.
\<close>

datatype outcome = Exit int | Terminate exn | Undefined fault | Blocked

subsection \<open>The benchmark loop\<close>

text \<open>
  The four variables of the loop. The two counters are \<open>int\<close>. The two times are
  readings of \<open>std::chrono::steady_clock\<close>: a count of nanoseconds held in a signed
  64-bit integer, a word here that \<open>sint\<close> reads.
\<close>

record counters =
  total_frames :: int
  frames_last_second :: int
  start_time :: "64 word"
  last_report :: "64 word"

definition INT64_MAX :: int where
  "INT64_MAX = 9223372036854775807"

definition INT64_MIN :: int where
  "INT64_MIN = - 9223372036854775808"

text \<open>
  \<open>a - b\<close> on two readings is a subtraction of signed 64-bit integers: \<open>None\<close> when
  the difference does not fit, which is undefined behaviour in C++.
  \<open>duration_cast<seconds>\<close> then divides the nanoseconds by \<open>10^9\<close>, truncating
  towards zero.
\<close>

definition time_diff :: "64 word \<Rightarrow> 64 word \<Rightarrow> int option" where
  "time_diff a b =
     (let d = sint a - sint b in if d < INT64_MIN \<or> INT64_MAX < d then None else Some d)"

definition test_duration_sec :: int where
  "test_duration_sec = 5"

definition duration_cast_seconds :: "int \<Rightarrow> int" where
  "duration_cast_seconds d = sgn d * (\<bar>d\<bar> div 1000000000)"

text \<open>
  One iteration meets one answer of the camera: \<open>ReadFailed\<close> when \<open>cap.read\<close> returns
  \<open>false\<close>, \<open>Frame now\<close> when it returns \<open>true\<close> and the clock then reads \<open>now\<close>.
\<close>

datatype event = ReadFailed | Frame "64 word"

datatype step =
    Continue counters "effect list"
  | Break counters "effect list"
  | Fault fault

text \<open>
  The body of the loop, statement by statement: the two increments, the reading of the
  clock, the two differences, the report and the summary.
\<close>

definition loop_body :: "counters \<Rightarrow> event \<Rightarrow> step" where
  "loop_body c ev =
     (case ev of
        ReadFailed \<Rightarrow> Break c [ErrCaptureFailed]
      | Frame now \<Rightarrow>
          if total_frames c = INT_MAX \<or> frames_last_second c = INT_MAX then Fault SignedOverflow
          else
            (let c1 = c\<lparr>total_frames := total_frames c + 1,
                         frames_last_second := frames_last_second c + 1\<rparr> in
             case time_diff now (start_time c1) of
               None \<Rightarrow> Fault SignedOverflow
             | Some since_start \<Rightarrow>
            (case time_diff now (last_report c1) of
               None \<Rightarrow> Fault SignedOverflow
             | Some since_report \<Rightarrow>
            (let total_elapsed = duration_cast_seconds since_start;
                 elapsed_since_report = duration_cast_seconds since_report;
                 c2 = (if elapsed_since_report \<ge> 1
                       then c1\<lparr>frames_last_second := 0, last_report := now\<rparr> else c1);
                 out = (if elapsed_since_report \<ge> 1
                        then [CurrentFPS (frames_last_second c1)] else [])
             in if total_elapsed \<ge> test_duration_sec
                then Break c2 (out @ [Summary (total_frames c2) total_elapsed])
                else Continue c2 out))))"

text \<open>
  \<open>while (true)\<close> over the answers of the camera. The loop ends at a \<open>break\<close>
  (\<open>Broke\<close>), in undefined behaviour, or it waits for a frame that never comes.
\<close>

datatype loop_end = Broke | Faulted fault | Waiting

fun bench_loop :: "counters \<Rightarrow> event list \<Rightarrow> loop_end \<times> counters \<times> effect list" where
  "bench_loop c [] = (Waiting, c, [])"
| "bench_loop c (ev # evs) =
     (case loop_body c ev of
        Continue c' out \<Rightarrow>
          (case bench_loop c' evs of (e, c'', out') \<Rightarrow> (e, c'', out @ out'))
      | Break c' out \<Rightarrow> (Broke, c', out)
      | Fault f \<Rightarrow> (Faulted f, c, []))"

definition init_counters :: "64 word \<Rightarrow> counters" where
  "init_counters t0 =
     \<lparr>total_frames = 0, frames_last_second = 0, start_time = t0, last_report = t0\<rparr>"

subsection \<open>main\<close>

text \<open>
  The inputs besides \<open>argv\<close>: \<open>opens d\<close> tells whether device \<open>d\<close> opens
  (\<open>cap.isOpened()\<close>), \<open>t0\<close> is the clock at \<open>start_time\<close>, \<open>evs\<close> are the answers
  of the camera. The options \<open>width\<close>, \<open>height\<close> and \<open>fps\<close> are stored by
  \<open>parseArgs\<close> and never read by \<open>main\<close>.
\<close>

definition main ::
  "string list \<Rightarrow> (int \<Rightarrow> bool) \<Rightarrow> 64 word \<Rightarrow> event list \<Rightarrow> outcome \<times> effect list" where
  "main argv opens t0 evs =
     (case parseArgs argv of
        Inl f \<Rightarrow> (Undefined f, [])
      | Inr args \<Rightarrow>
          if ''help'' \<in> dom args then (Exit 0, [Usage (argv ! 0)])
          else
            (let device_str = (case args ''device'' of Some d \<Rightarrow> d | None \<Rightarrow> ''0'') in
             case device_of device_str of
               Inl e \<Rightarrow> (Terminate e, [])
             | Inr device \<Rightarrow>
                 (let format = (case args ''format'' of Some f \<Rightarrow> f | None \<Rightarrow> ''MJPG'') in
                  case (case args ''resolution'' of
                          None \<Rightarrow> Some (640, 480, 30)
                        | Some res \<Rightarrow> parseResolution res) of
                    None \<Rightarrow> (Exit 1, [ErrInvalidResolution])
                  | Some (width, height, fps) \<Rightarrow>
                      (let fourcc = fourccFromString format in
                       if fourcc = 0 then (Exit 1, [ErrInvalidFormat format])
                       else if \<not> opens device then (Exit 1, [Open device, ErrOpenFailed device])
                       else
                         (let setup = [Open device, SetWidth width, SetHeight height,
                                       SetFourcc fourcc, SetFps fps,
                                       Testing width height fps format] in
                          case bench_loop (init_counters t0) evs of
                            (Broke, c, out) \<Rightarrow> (Exit 0, setup @ out @ [Release])
                          | (Faulted f, c, out) \<Rightarrow> (Undefined f, setup @ out)
                          | (Waiting, c, out) \<Rightarrow> (Blocked, setup @ out))))))"

subsection \<open>Reading a parse result\<close>

text \<open>
  \<open>option_value k r\<close> is the value stored for the option \<open>k\<close> in the result \<open>r\<close> of
  \<open>parseArgs\<close>, if the parser returned and stored one.
\<close>

definition option_value :: "string \<Rightarrow> fault + args \<Rightarrow> string option" where
  "option_value k r = (case r of Inl f \<Rightarrow> None | Inr args \<Rightarrow> args k)"

text \<open>
  The tokens that reach a value-taking branch of \<open>parseArgs\<close>, each with the key its
  branch stores under. The token \<open>-h\<close> is not among them: the help test comes before
  the height branch.
\<close>

definition value_key :: "string \<Rightarrow> string option" where
  "value_key key =
     (if key = ''-d'' \<or> key = ''--device'' then Some ''device''
      else if key = ''-w'' \<or> key = ''--width'' then Some ''width''
      else if key = ''--height'' then Some ''height''
      else if key = ''-f'' \<or> key = ''--format'' then Some ''format''
      else if key = ''-r'' \<or> key = ''--resolution'' then Some ''resolution''
      else if key = ''-s'' \<or> key = ''--fps'' then Some ''fps''
      else None)"

subsection \<open>Reading the effects of a run\<close>

text \<open>The final summary line, and the report printed once a second.\<close>

fun is_summary :: "effect \<Rightarrow> bool" where
  "is_summary (Summary n s) = True"
| "is_summary _ = False"

fun is_report :: "effect \<Rightarrow> bool" where
  "is_report (CurrentFPS n) = True"
| "is_report _ = False"

text \<open>The counters and the output an iteration leaves behind, when it has no fault.\<close>

fun after_step :: "step \<Rightarrow> (counters \<times> effect list) option" where
  "after_step (Continue c out) = Some (c, out)"
| "after_step (Break c out) = Some (c, out)"
| "after_step (Fault f) = None"

text \<open>
  The loop keeps the per-interval counter between 0 and the running total, so of the
  two increments only the one of the total can overflow.
\<close>

definition counters_ok :: "counters \<Rightarrow> bool" where
  "counters_ok c \<longleftrightarrow> 0 \<le> frames_last_second c \<and> frames_last_second c \<le> total_frames c"

text \<open>
  \<open>readings_fit rs\<close>: no two of the clock readings \<open>rs\<close> are further apart than a
  signed 64-bit count of nanoseconds can tell, some 292 years. Then no difference of
  two of them overflows.
\<close>

definition readings_fit :: "64 word list \<Rightarrow> bool" where
  "readings_fit rs \<longleftrightarrow> (\<forall>a \<in> set rs. \<forall>b \<in> set rs. sint a - sint b \<le> INT64_MAX)"

text \<open>
  \<open>step_defined c ev\<close>: the iteration that meets \<open>ev\<close> with the variables \<open>c\<close> has
  no undefined behaviour: neither counter stands at \<open>INT_MAX\<close> and both differences of
  clock readings fit.
\<close>

definition step_defined :: "counters \<Rightarrow> event \<Rightarrow> bool" where
  "step_defined c ev \<longleftrightarrow>
     (case ev of
        ReadFailed \<Rightarrow> True
      | Frame now \<Rightarrow>
          total_frames c \<noteq> INT_MAX \<and> frames_last_second c \<noteq> INT_MAX \<and>
          time_diff now (start_time c) \<noteq> None \<and> time_diff now (last_report c) \<noteq> None)"


subsection \<open>Decimal numerals as texts\<close>

text \<open>
  \<open>decimal n\<close> is the numeral of \<open>n\<close> with no sign and no leading zero, the text
  that \<open>/dev/video<N>\<close> and \<open>WIDTHxHEIGHT@FPS\<close> carry for a number.
\<close>

definition digit_char :: "nat \<Rightarrow> char" where
  "digit_char d = ''0123456789'' ! d"

fun decimal :: "nat \<Rightarrow> string" where
  "decimal n = (if n < 10 then [digit_char n] else decimal (n div 10) @ [digit_char (n mod 10)])"

declare decimal.simps [simp del]

subsection \<open>The texts the numeral reader accepts\<close>

text \<open>
  \<open>spaces sp\<close>: the text \<open>sp\<close> is white space only. \<open>numeral_text n v\<close>: the text
  \<open>n\<close> is a run of one or more digits, with or without one sign before it, and \<open>v\<close>
  is its value. \<open>no_digit_ahead r\<close>: the text \<open>r\<close> does not go on with a digit.
\<close>

definition spaces :: "string \<Rightarrow> bool" where
  "spaces sp \<longleftrightarrow> list_all isspace sp"

fun numeral_text :: "string \<Rightarrow> int \<Rightarrow> bool" where
  "numeral_text [] v = False"
| "numeral_text (c # cs) v =
     (if c = CHR ''-'' then cs \<noteq> [] \<and> list_all isdigit cs \<and> v = - digits_val cs
      else if c = CHR ''+'' then cs \<noteq> [] \<and> list_all isdigit cs \<and> v = digits_val cs
      else list_all isdigit (c # cs) \<and> v = digits_val (c # cs))"

fun no_digit_ahead :: "string \<Rightarrow> bool" where
  "no_digit_ahead [] = True"
| "no_digit_ahead (c # cs) = (\<not> isdigit c)"

definition in_int_range :: "int \<Rightarrow> bool" where
  "in_int_range v \<longleftrightarrow> INT_MIN \<le> v \<and> v \<le> INT_MAX"

subsection \<open>The texts of a resolution\<close>

text \<open>
  \<open>resolution_text s w h f\<close>: the text \<open>s\<close> starts with a numeral for \<open>w\<close>, the
  character \<open>x\<close>, a numeral for \<open>h\<close>, the character \<open>@\<close> and a numeral for \<open>f\<close>,
  each of the five with white space before it or not, the three values in the range of
  \<open>int\<close>; what follows the last numeral is free, except that it does not go on with a
  digit.
\<close>

definition resolution_text :: "string \<Rightarrow> int \<Rightarrow> int \<Rightarrow> int \<Rightarrow> bool" where
  "resolution_text s w h f \<longleftrightarrow>
     (\<exists>sp1 n1 sp2 sp3 n2 sp4 sp5 n3 rest.
        s = sp1 @ n1 @ sp2 @ CHR ''x'' # sp3 @ n2 @ sp4 @ CHR ''@'' # sp5 @ n3 @ rest \<and>
        spaces sp1 \<and> spaces sp2 \<and> spaces sp3 \<and> spaces sp4 \<and> spaces sp5 \<and>
        numeral_text n1 w \<and> numeral_text n2 h \<and> numeral_text n3 f \<and> no_digit_ahead rest \<and>
        in_int_range w \<and> in_int_range h \<and> in_int_range f)"

text \<open>
  The shape \<open><int>x<int>@<int>\<close> read to the letter, as the specification words it: a
  numeral, \<open>x\<close>, a numeral, \<open>@\<close>, a numeral, and nothing else.
\<close>

fun is_numeral :: "string \<Rightarrow> bool" where
  "is_numeral [] = False"
| "is_numeral (c # cs) =
     (if c = CHR ''-'' \<or> c = CHR ''+'' then cs \<noteq> [] \<and> list_all isdigit cs
      else list_all isdigit (c # cs))"

definition shape_int_x_int_at_int :: "string \<Rightarrow> bool" where
  "shape_int_x_int_at_int s \<longleftrightarrow>
     (let a = takeWhile (\<lambda>c. c \<noteq> CHR ''x'') s;
          r = dropWhile (\<lambda>c. c \<noteq> CHR ''x'') s;
          b = takeWhile (\<lambda>c. c \<noteq> CHR ''@'') (tl r);
          r' = dropWhile (\<lambda>c. c \<noteq> CHR ''@'') (tl r)
      in r \<noteq> [] \<and> r' \<noteq> [] \<and> is_numeral a \<and> is_numeral b \<and> is_numeral (tl r'))"

section \<open>Properties of the argument parser\<close>

subsection \<open>One iteration of the loop\<close>

lemma parseArgs_loop_end:
  "\<not> i < length argv \<Longrightarrow> parseArgs_loop argv i args = Inr args"
  by (subst parseArgs_loop.simps) simp

lemma parseArgs_loop_help:
  "i < length argv \<Longrightarrow> argv ! i = ''-h'' \<or> argv ! i = ''--help'' \<Longrightarrow>
   parseArgs_loop argv i args = Inr (args(''help'' \<mapsto> ''1''))"
  by (subst parseArgs_loop.simps) auto

lemma parseArgs_loop_value:
  "i < length argv \<Longrightarrow> value_key (argv ! i) = Some name \<Longrightarrow>
   parseArgs_loop argv i args =
     (if i + 1 < length argv
      then parseArgs_loop argv (i + 2) (args(name \<mapsto> argv ! (i + 1)))
      else Inl ReadPastEnd)"
  by (subst parseArgs_loop.simps) (auto simp: value_key_def split: if_splits)

lemma parseArgs_loop_other:
  "i < length argv \<Longrightarrow> value_key (argv ! i) = None \<Longrightarrow>
   argv ! i \<noteq> ''-h'' \<Longrightarrow> argv ! i \<noteq> ''--help'' \<Longrightarrow>
   parseArgs_loop argv i args = parseArgs_loop argv (i + 1) args"
  by (subst parseArgs_loop.simps) (auto simp: value_key_def split: if_splits)

lemma value_key_height: "value_key key = Some ''height'' \<Longrightarrow> key = ''--height''"
  by (simp add: value_key_def split: if_splits)

subsection \<open>The height option is set by \<open>--height\<close> only\<close>

lemma parseArgs_loop_height:
  "parseArgs_loop argv i args = Inr m \<Longrightarrow> m ''height'' = Some v \<Longrightarrow>
   args ''height'' = Some v \<or> ''--height'' \<in> set argv"
proof (induction "length argv - i" arbitrary: i args rule: less_induct)
  case less
  show ?case
  proof (cases "i < length argv")
    case False
    with less.prems show ?thesis by (simp add: parseArgs_loop_end)
  next
    case inside: True
    show ?thesis
    proof (cases "argv ! i = ''-h'' \<or> argv ! i = ''--help''")
      case True
      with inside less.prems show ?thesis
        by (auto simp: parseArgs_loop_help)
    next
      case nohelp: False
      show ?thesis
      proof (cases "value_key (argv ! i)")
        case None
        with nohelp inside less.prems
        have "parseArgs_loop argv (i + 1) args = Inr m"
          by (simp add: parseArgs_loop_other)
        moreover from inside have "length argv - (i + 1) < length argv - i" by simp
        ultimately show ?thesis using less.hyps less.prems(2) by blast
      next
        case (Some name)
        with inside less.prems(1)
        have rec: "parseArgs_loop argv (i + 2) (args(name \<mapsto> argv ! (i + 1))) = Inr m"
          by (auto simp: parseArgs_loop_value split: if_splits)
        from inside have "length argv - (i + 2) < length argv - i" by simp
        with rec less.hyps less.prems(2)
        have "(args(name \<mapsto> argv ! (i + 1))) ''height'' = Some v \<or> ''--height'' \<in> set argv"
          by blast
        then show ?thesis
        proof
          assume upd: "(args(name \<mapsto> argv ! (i + 1))) ''height'' = Some v"
          show ?thesis
          proof (cases "name = ''height''")
            case True
            with Some have "argv ! i = ''--height''" by (simp add: value_key_height)
            with inside show ?thesis by (metis nth_mem)
          next
            case False
            with upd show ?thesis by simp
          qed
        next
          assume "''--height'' \<in> set argv"
          then show ?thesis ..
        qed
      qed
    qed
  qed
qed

subsection \<open>The short token \<open>-h\<close>\<close>

text \<open>
  Claim C4 says that the short token \<open>-h\<close> is captured by the height branch and takes
  the next token as the height. In \<open>parseArgs\<close> the test for the help tokens is the
  first statement of the loop body, so for \<open>camtest -h 720\<close> no height is stored: the
  parser returns the help flag.
\<close>

theorem short_h_height_counterexample:
  "option_value ''height'' (parseArgs [''camtest'', ''-h'', ''720'']) \<noteq> Some ''720'' \<and>
   parseArgs [''camtest'', ''-h'', ''720''] = Inr [''help'' \<mapsto> ''1'']"
  by (simp add: parseArgs_def parseArgs_loop_help option_value_def)

text \<open>
  Claim C4, amended. Whenever the loop stands at a help token, spelled \<open>--help\<close> or
  \<open>-h\<close>, help detection wins: the parser returns at once with the help flag added.
  The test for \<open>-h\<close> in the height branch is never reached; of \<open>-h\<close> and
  \<open>--height\<close> only \<open>--height\<close> takes the next token as the height, and a result of
  the parser that holds a height comes from an argument list in which \<open>--height\<close> is
  spelled out.
\<close>

theorem short_h_is_help:
  assumes "i < length argv"
  shows "(argv ! i = ''--help'' \<or> argv ! i = ''-h'' \<longrightarrow>
            parseArgs_loop argv i args = Inr (args(''help'' \<mapsto> ''1''))) \<and>
         (argv ! i = ''--height'' \<longrightarrow>
            parseArgs_loop argv i args =
              (if i + 1 < length argv
               then parseArgs_loop argv (i + 2) (args(''height'' \<mapsto> argv ! (i + 1)))
               else Inl ReadPastEnd)) \<and>
         (\<forall>v. option_value ''height'' (parseArgs argv) = Some v \<longrightarrow> ''--height'' \<in> set argv)"
proof (intro conjI impI allI)
  assume "argv ! i = ''--help'' \<or> argv ! i = ''-h''"
  with assms show "parseArgs_loop argv i args = Inr (args(''help'' \<mapsto> ''1''))"
    by (auto simp: parseArgs_loop_help)
next
  assume "argv ! i = ''--height''"
  then have "value_key (argv ! i) = Some ''height''" by (simp add: value_key_def)
  with assms show "parseArgs_loop argv i args =
      (if i + 1 < length argv
       then parseArgs_loop argv (i + 2) (args(''height'' \<mapsto> argv ! (i + 1)))
       else Inl ReadPastEnd)"
    by (rule parseArgs_loop_value)
next
  fix v
  assume "option_value ''height'' (parseArgs argv) = Some v"
  then obtain m where "parseArgs_loop argv 1 Map.empty = Inr m" and "m ''height'' = Some v"
    by (auto simp: option_value_def parseArgs_def split: sum.splits)
  then have "Map.empty ''height'' = Some v \<or> ''--height'' \<in> set argv"
    by (rule parseArgs_loop_height)
  then show "''--height'' \<in> set argv" by simp
qed

theorem short_h_is_help_witness:
  "parseArgs_loop [''camtest'', ''-h'', ''720''] 1 Map.empty = Inr [''help'' \<mapsto> ''1''] \<and>
   parseArgs_loop [''camtest'', ''--height'', ''720''] 1 Map.empty = Inr [''height'' \<mapsto> ''720''] \<and>
   option_value ''height'' (parseArgs [''camtest'', ''--height'', ''720'']) = Some ''720'' \<and>
   ''--height'' \<in> set [''camtest'', ''--height'', ''720'']"
proof -
  have len: "1 < length [''camtest'', ''-h'', ''720'']"
    and len': "1 < length [''camtest'', ''--height'', ''720'']" by simp_all
  have a: "parseArgs_loop [''camtest'', ''-h'', ''720''] 1 Map.empty = Inr [''help'' \<mapsto> ''1'']"
    using short_h_is_help [OF len, of Map.empty] by simp
  have b: "parseArgs_loop [''camtest'', ''--height'', ''720''] 1 Map.empty
             = Inr [''height'' \<mapsto> ''720'']"
    using short_h_is_help [OF len', of Map.empty] by (simp add: parseArgs_loop_end)
  from b have c: "option_value ''height'' (parseArgs [''camtest'', ''--height'', ''720''])
                    = Some ''720''"
    by (simp add: option_value_def parseArgs_def)
  have d: "''--height'' \<in> set [''camtest'', ''--height'', ''720'']" by simp
  show ?thesis
    apply (rule conjI [OF a])
    apply (rule conjI [OF b])
    apply (rule conjI [OF c])
    apply (rule d)
    done
qed

subsection \<open>The help tokens\<close>

text \<open>
  Claim C5 says that for every argument list with a help token the parser returns with
  only the help flag set. \<open>parseArgs\<close> returns the map it has filled so far, so an
  option parsed before the help token stays in the result; and a help token that an
  option before it takes as its value is not seen as a help token at all.
\<close>

theorem help_only_flag_counterexample:
  "parseArgs [''camtest'', ''-w'', ''800'', ''--help''] \<noteq> Inr [''help'' \<mapsto> ''1''] \<and>
   option_value ''width'' (parseArgs [''camtest'', ''-w'', ''800'', ''--help'']) = Some ''800'' \<and>
   option_value ''help'' (parseArgs [''camtest'', ''-d'', ''--help'']) = None"
proof -
  have w: "value_key ''-w'' = Some ''width''" and d: "value_key ''-d'' = Some ''device''"
    by (simp_all add: value_key_def)
  have a: "parseArgs [''camtest'', ''-w'', ''800'', ''--help'']
             = Inr [''width'' \<mapsto> ''800'', ''help'' \<mapsto> ''1'']"
    by (simp add: parseArgs_def parseArgs_loop_value w parseArgs_loop_help)
  have b: "parseArgs [''camtest'', ''-d'', ''--help''] = Inr [''device'' \<mapsto> ''--help'']"
    by (simp add: parseArgs_def parseArgs_loop_value d parseArgs_loop_end)
  have "[''width'' \<mapsto> ''800'', ''help'' \<mapsto> ''1''] ''width''
          \<noteq> [''help'' \<mapsto> ''1''] ''width''" by simp
  then have "[''width'' \<mapsto> ''800'', ''help'' \<mapsto> ''1''] \<noteq> [''help'' \<mapsto> ''1'']"
    by (rule contrapos_nn) (erule arg_cong)
  with a b show ?thesis by (simp add: option_value_def)
qed

subsection \<open>The tokens before a help token\<close>

lemma value_key_not_help: "value_key key = Some name \<Longrightarrow> name \<noteq> ''help''"
  by (auto simp: value_key_def split: if_splits)

lemma parseArgs_loop_prefix:
  assumes "parseArgs_loop (take n argv) i args = Inr m" and "''help'' \<notin> dom m"
    and "i \<le> n" and "n \<le> length argv"
  shows "parseArgs_loop argv i args = parseArgs_loop argv n m"
  using assms
proof (induction "n - i" arbitrary: i args rule: less_induct)
  case less
  have len: "length (take n argv) = n" using less.prems(4) by simp
  show ?case
  proof (cases "i < n")
    case False
    with less.prems(3) have "i = n" by simp
    with less.prems(1) len show ?thesis by (simp add: parseArgs_loop_end)
  next
    case inside: True
    then have key: "take n argv ! i = argv ! i" and i: "i < length argv"
      using less.prems(4) by simp_all
    from inside len have i': "i < length (take n argv)" by simp
    show ?thesis
    proof (cases "argv ! i = ''-h'' \<or> argv ! i = ''--help''")
      case True
      with i' key less.prems(1) have "m = args(''help'' \<mapsto> ''1'')"
        by (simp add: parseArgs_loop_help)
      with less.prems(2) show ?thesis by simp
    next
      case nohelp: False
      show ?thesis
      proof (cases "value_key (argv ! i)")
        case None
        with nohelp i' key less.prems(1)
        have "parseArgs_loop (take n argv) (i + 1) args = Inr m"
          by (simp add: parseArgs_loop_other)
        moreover from inside have "n - (i + 1) < n - i" "i + 1 \<le> n" by simp_all
        ultimately have "parseArgs_loop argv (i + 1) args = parseArgs_loop argv n m"
          using less.hyps less.prems(2,4) by blast
        with None nohelp i show ?thesis by (simp add: parseArgs_loop_other)
      next
        case (Some name)
        with i' key len less.prems(1)
        have more: "i + 1 < n"
          and rec: "parseArgs_loop (take n argv) (i + 2) (args(name \<mapsto> take n argv ! (i + 1))) = Inr m"
          by (auto simp: parseArgs_loop_value split: if_splits)
        from more have v: "take n argv ! (i + 1) = argv ! (i + 1)" by simp
        from more have "n - (i + 2) < n - i" "i + 2 \<le> n" by simp_all
        with rec v less.hyps less.prems(2,4)
        have "parseArgs_loop argv (i + 2) (args(name \<mapsto> argv ! (i + 1))) = parseArgs_loop argv n m"
          by metis
        moreover from more less.prems(4) have "i + 1 < length argv" by simp
        ultimately show ?thesis using Some i by (simp add: parseArgs_loop_value)
      qed
    qed
  qed
qed

lemma parseArgs_loop_help_origin:
  assumes "parseArgs_loop argv i args = Inr m'" and "''help'' \<in> dom m'"
    and "''help'' \<notin> dom args"
  shows "\<exists>n m. i \<le> n \<and> n < length argv \<and> (argv ! n = ''-h'' \<or> argv ! n = ''--help'') \<and>
           parseArgs_loop (take n argv) i args = Inr m \<and> ''help'' \<notin> dom m \<and>
           m' = m(''help'' \<mapsto> ''1'')"
  using assms
proof (induction "length argv - i" arbitrary: i args rule: less_induct)
  case less
  show ?case
  proof (cases "i < length argv")
    case False
    with less.prems show ?thesis by (simp add: parseArgs_loop_end)
  next
    case inside: True
    show ?thesis
    proof (cases "argv ! i = ''-h'' \<or> argv ! i = ''--help''")
      case True
      with inside less.prems(1) have "m' = args(''help'' \<mapsto> ''1'')"
        by (simp add: parseArgs_loop_help)
      moreover from inside have "parseArgs_loop (take i argv) i args = Inr args"
        by (simp add: parseArgs_loop_end)
      ultimately show ?thesis using True inside less.prems(3) by blast
    next
      case nohelp: False
      show ?thesis
      proof (cases "value_key (argv ! i)")
        case None
        with nohelp inside less.prems(1)
        have "parseArgs_loop argv (i + 1) args = Inr m'" by (simp add: parseArgs_loop_other)
        moreover from inside have "length argv - (i + 1) < length argv - i" by simp
        ultimately obtain n m where n: "i + 1 \<le> n" "n < length argv"
          "argv ! n = ''-h'' \<or> argv ! n = ''--help''"
          and pre: "parseArgs_loop (take n argv) (i + 1) args = Inr m"
          and m: "''help'' \<notin> dom m" "m' = m(''help'' \<mapsto> ''1'')"
          using less.hyps less.prems(2,3) by blast
        from n have "i < length (take n argv)" "take n argv ! i = argv ! i" by simp_all
        with None nohelp pre have "parseArgs_loop (take n argv) i args = Inr m"
          by (simp add: parseArgs_loop_other)
        with n m show ?thesis by (intro exI [of _ n] exI [of _ m]) simp
      next
        case (Some name)
        with inside less.prems(1)
        have more: "i + 1 < length argv"
          and rec: "parseArgs_loop argv (i + 2) (args(name \<mapsto> argv ! (i + 1))) = Inr m'"
          by (auto simp: parseArgs_loop_value split: if_splits)
        from Some less.prems(3) have "''help'' \<notin> dom (args(name \<mapsto> argv ! (i + 1)))"
          using value_key_not_help by auto
        moreover from inside have "length argv - (i + 2) < length argv - i" by simp
        ultimately obtain n m where n: "i + 2 \<le> n" "n < length argv"
          "argv ! n = ''-h'' \<or> argv ! n = ''--help''"
          and pre: "parseArgs_loop (take n argv) (i + 2) (args(name \<mapsto> argv ! (i + 1))) = Inr m"
          and m: "''help'' \<notin> dom m" "m' = m(''help'' \<mapsto> ''1'')"
          using less.hyps rec less.prems(2) by blast
        from n have "i < length (take n argv)" "take n argv ! i = argv ! i"
          "i + 1 < length (take n argv)" "take n argv ! (i + 1) = argv ! (i + 1)" by simp_all
        with Some pre have "parseArgs_loop (take n argv) i args = Inr m"
          by (simp add: parseArgs_loop_value)
        with n m show ?thesis by (intro exI [of _ n] exI [of _ m]) simp
      qed
    qed
  qed
qed

text \<open>
  Claim C5, amended. Take an argument list with a help token, \<open>-h\<close> or \<open>--help\<close>,
  at position \<open>n\<close>, such that the parser gets through the \<open>n\<close> tokens before it
  without a help flag (none of them is a help token at an option position, and none is
  a value-taking option that takes the help token as its value). Then the parser
  returns at that token: its result is the options stored from the tokens before, with
  the help flag added, whatever tokens follow; and \<open>main\<close> prints the usage text and
  returns 0. A result of the parser holds the help flag only when it came about in this
  way. When the help token is the first argument, the result is the help flag alone.
\<close>

theorem help_returns_at_once:
  "(1 \<le> n \<and> n < length argv \<and> (argv ! n = ''-h'' \<or> argv ! n = ''--help'') \<and>
    parseArgs (take n argv) = Inr m \<and> ''help'' \<notin> dom m \<longrightarrow>
      parseArgs argv = Inr (m(''help'' \<mapsto> ''1'')) \<and>
      parseArgs (take (Suc n) argv @ others) = Inr (m(''help'' \<mapsto> ''1'')) \<and>
      main argv opens t0 evs = (Exit 0, [Usage (argv ! 0)])) \<and>
   (\<forall>m'. parseArgs argv = Inr m' \<and> ''help'' \<in> dom m' \<longrightarrow>
      (\<exists>k m. 1 \<le> k \<and> k < length argv \<and> (argv ! k = ''-h'' \<or> argv ! k = ''--help'') \<and>
         parseArgs (take k argv) = Inr m \<and> ''help'' \<notin> dom m \<and>
         m' = m(''help'' \<mapsto> ''1''))) \<and>
   (h = ''-h'' \<or> h = ''--help'' \<longrightarrow>
      parseArgs (prog # h # rest) = Inr [''help'' \<mapsto> ''1''] \<and>
      main (prog # h # rest) opens t0 evs = (Exit 0, [Usage prog]))"
proof (intro conjI impI allI)
  assume h: "1 \<le> n \<and> n < length argv \<and> (argv ! n = ''-h'' \<or> argv ! n = ''--help'') \<and>
    parseArgs (take n argv) = Inr m \<and> ''help'' \<notin> dom m"
  then have pre: "parseArgs_loop (take n argv) 1 Map.empty = Inr m" and m: "''help'' \<notin> dom m"
    and n: "1 \<le> n" "n < length argv" and key: "argv ! n = ''-h'' \<or> argv ! n = ''--help''"
    by (simp_all add: parseArgs_def)
  from n have "n \<le> length argv" by simp
  from parseArgs_loop_prefix [OF pre m n(1) this] n(2) key
  show whole: "parseArgs argv = Inr (m(''help'' \<mapsto> ''1''))"
    by (simp add: parseArgs_def parseArgs_loop_help)
  then show "main argv opens t0 evs = (Exit 0, [Usage (argv ! 0)])"
    by (simp add: main_def)
  let ?argv = "take (Suc n) argv @ others"
  from n have n': "n < length ?argv" "n \<le> length ?argv" and key': "?argv ! n = argv ! n"
    and take': "take n ?argv = take n argv"
    by (simp_all add: nth_append min_def)
  have "parseArgs_loop (take n ?argv) 1 Map.empty = Inr m" unfolding take' by (rule pre)
  from parseArgs_loop_prefix [OF this m n(1) n'(2)] n'(1) key key'
  show "parseArgs ?argv = Inr (m(''help'' \<mapsto> ''1''))"
    by (simp add: parseArgs_def parseArgs_loop_help)
next
  fix m'
  assume "parseArgs argv = Inr m' \<and> ''help'' \<in> dom m'"
  then have "parseArgs_loop argv 1 Map.empty = Inr m'" and "''help'' \<in> dom m'"
    by (simp_all add: parseArgs_def)
  moreover have "''help'' \<notin> dom (Map.empty :: args)" by simp
  ultimately show "\<exists>k m. 1 \<le> k \<and> k < length argv \<and>
      (argv ! k = ''-h'' \<or> argv ! k = ''--help'') \<and>
      parseArgs (take k argv) = Inr m \<and> ''help'' \<notin> dom m \<and> m' = m(''help'' \<mapsto> ''1'')"
    unfolding parseArgs_def by (rule parseArgs_loop_help_origin)
next
  assume "h = ''-h'' \<or> h = ''--help''"
  then show first: "parseArgs (prog # h # rest) = Inr [''help'' \<mapsto> ''1'']"
    by (simp add: parseArgs_def parseArgs_loop_help)
  then show "main (prog # h # rest) opens t0 evs = (Exit 0, [Usage prog])"
    by (simp add: main_def)
qed

theorem help_returns_at_once_witness:
  "parseArgs [''camtest'', ''foo'', ''-w'', ''800'', ''--help'', ''-d'']
     = Inr [''width'' \<mapsto> ''800'', ''help'' \<mapsto> ''1''] \<and>
   main [''camtest'', ''foo'', ''-w'', ''800'', ''--help'', ''-d''] (\<lambda>d. False) 0 [ReadFailed]
     = (Exit 0, [Usage ''camtest'']) \<and>
   parseArgs [''camtest'', ''--help'', ''-r'', ''junk'', ''-d''] = Inr [''help'' \<mapsto> ''1'']"
proof -
  let ?argv = "[''camtest'', ''foo'', ''-w'', ''800'', ''--help'', ''-d'']"
  have w: "value_key ''-w'' = Some ''width''" and foo: "value_key ''foo'' = None"
    by (simp_all add: value_key_def)
  have pre: "parseArgs (take 4 ?argv) = Inr [''width'' \<mapsto> ''800'']"
    by (simp add: parseArgs_def parseArgs_loop_other foo parseArgs_loop_value w
        parseArgs_loop_end)
  have hyp: "1 \<le> (4::nat) \<and> 4 < length ?argv \<and> (?argv ! 4 = ''-h'' \<or> ?argv ! 4 = ''--help'') \<and>
    parseArgs (take 4 ?argv) = Inr [''width'' \<mapsto> ''800''] \<and>
    ''help'' \<notin> dom [''width'' \<mapsto> ''800'']"
    using pre by simp
  note inst = help_returns_at_once [of 4 ?argv "[''width'' \<mapsto> ''800'']"]
  have a: "parseArgs ?argv = Inr [''width'' \<mapsto> ''800'', ''help'' \<mapsto> ''1'']"
    using inst hyp by blast
  have b: "main ?argv (\<lambda>d. False) 0 [ReadFailed] = (Exit 0, [Usage ''camtest''])"
    using inst [of _ "\<lambda>d. False" 0 "[ReadFailed]"] hyp by simp
  have c: "parseArgs [''camtest'', ''--help'', ''-r'', ''junk'', ''-d''] = Inr [''help'' \<mapsto> ''1'']"
    using help_returns_at_once [of _ _ _ _ _ _ _ "''--help''" "''camtest''" "[''-r'', ''junk'', ''-d'']"]
    by simp
  show ?thesis
    apply (rule conjI [OF a])
    apply (rule conjI [OF b])
    apply (rule c)
    done
qed

subsection \<open>Options that take a value\<close>

text \<open>The eleven tokens that reach a value-taking branch, and the short \<open>-h\<close>, which does not.\<close>

lemma value_key_table:
  "map value_key [''-d'', ''--device'', ''-w'', ''--width'', ''--height'', ''-f'', ''--format'',
                  ''-r'', ''--resolution'', ''-s'', ''--fps'', ''-h'']
     = [Some ''device'', Some ''device'', Some ''width'', Some ''width'', Some ''height'',
        Some ''format'', Some ''format'', Some ''resolution'', Some ''resolution'',
        Some ''fps'', Some ''fps'', None]"
  by (simp add: value_key_def)

text \<open>
  Claim C9 lists \<open>-h\<close> among the tokens that consume the following token and read past
  the end of the token list when they come last. For \<open>camtest -h\<close> the parser returns
  the help flag and reads nothing after the last token.
\<close>

theorem short_h_last_counterexample:
  "parseArgs [''camtest'', ''-h''] \<noteq> Inl ReadPastEnd \<and>
   parseArgs [''camtest'', ''-h''] = Inr [''help'' \<mapsto> ''1'']"
  by (simp add: parseArgs_def parseArgs_loop_help)

text \<open>
  Claim C9, amended. Whenever the loop of the parser stands at one of the value-taking
  tokens \<open>-d\<close>, \<open>--device\<close>, \<open>-w\<close>, \<open>--width\<close>, \<open>--height\<close>, \<open>-f\<close>,
  \<open>--format\<close>, \<open>-r\<close>, \<open>--resolution\<close>, \<open>-s\<close>, \<open>--fps\<close> (the short \<open>-h\<close>
  left out), it stores the following token as the value, whatever that token is, and
  goes on two tokens later. When the token is the last of the list, the parser reads
  past the end of the token list; this happens for the command line that consists of
  such a token alone, so the out-of-range read is reachable.
\<close>

theorem value_option_consumes_next:
  assumes "i < length argv" and "value_key (argv ! i) = Some name"
  shows "(i + 1 < length argv \<longrightarrow>
            parseArgs_loop argv i args
              = parseArgs_loop argv (i + 2) (args(name \<mapsto> argv ! (i + 1)))) \<and>
         (i + 1 = length argv \<longrightarrow> parseArgs_loop argv i args = Inl ReadPastEnd) \<and>
         parseArgs [prog, argv ! i] = Inl ReadPastEnd \<and>
         fst (main [prog, argv ! i] opens t0 evs) = Undefined ReadPastEnd"
proof (intro conjI impI)
  assume "i + 1 < length argv"
  with assms show "parseArgs_loop argv i args
      = parseArgs_loop argv (i + 2) (args(name \<mapsto> argv ! (i + 1)))"
    by (simp add: parseArgs_loop_value)
next
  assume "i + 1 = length argv"
  with assms show "parseArgs_loop argv i args = Inl ReadPastEnd"
    by (simp add: parseArgs_loop_value)
next
  have "1 < length [prog, argv ! i]" and "value_key ([prog, argv ! i] ! 1) = Some name"
    using assms(2) by simp_all
  then have "parseArgs_loop [prog, argv ! i] 1 Map.empty = Inl ReadPastEnd"
    by (simp add: parseArgs_loop_value)
  then show last: "parseArgs [prog, argv ! i] = Inl ReadPastEnd"
    by (simp add: parseArgs_def)
  then show "fst (main [prog, argv ! i] opens t0 evs) = Undefined ReadPastEnd"
    by (simp add: main_def)
qed

theorem value_option_consumes_next_witness:
  "parseArgs_loop [''camtest'', ''-d'', ''-w''] 1 Map.empty = Inr [''device'' \<mapsto> ''-w''] \<and>
   parseArgs_loop [''camtest'', ''-d'', ''-w'', ''--fps''] 3 [''device'' \<mapsto> ''-w'']
     = Inl ReadPastEnd \<and>
   parseArgs [''camtest'', ''--fps''] = Inl ReadPastEnd \<and>
   fst (main [''camtest'', ''--fps''] (\<lambda>d. True) 0 []) = Undefined ReadPastEnd"
proof -
  have d: "value_key ([''camtest'', ''-d'', ''-w''] ! 1) = Some ''device''"
    and s: "value_key ([''camtest'', ''-d'', ''-w'', ''--fps''] ! 3) = Some ''fps''"
    by (simp_all add: value_key_def)
  have l1: "1 < length [''camtest'', ''-d'', ''-w'']"
    and l3: "3 < length [''camtest'', ''-d'', ''-w'', ''--fps'']" by simp_all
  have a: "parseArgs_loop [''camtest'', ''-d'', ''-w''] 1 Map.empty = Inr [''device'' \<mapsto> ''-w'']"
    using value_option_consumes_next [OF l1 d, of Map.empty] by (simp add: parseArgs_loop_end)
  have b: "parseArgs_loop [''camtest'', ''-d'', ''-w'', ''--fps''] 3 [''device'' \<mapsto> ''-w'']
             = Inl ReadPastEnd"
    using value_option_consumes_next [OF l3 s, of "[''device'' \<mapsto> ''-w'']"] by simp
  have c: "parseArgs [''camtest'', ''--fps''] = Inl ReadPastEnd"
    using value_option_consumes_next [OF l3 s, of _ "''camtest''"] by simp
  have e: "fst (main [''camtest'', ''--fps''] (\<lambda>d. True) 0 []) = Undefined ReadPastEnd"
    using value_option_consumes_next [OF l3 s, of _ "''camtest''" "\<lambda>d. True" 0 "[]"] by simp
  show ?thesis
    apply (rule conjI [OF a])
    apply (rule conjI [OF b])
    apply (rule conjI [OF c])
    apply (rule e)
    done
qed

section \<open>Properties of the benchmark loop\<close>

subsection \<open>One iteration\<close>

lemma loop_body_ReadFailed: "loop_body c ReadFailed = Break c [ErrCaptureFailed]"
  by (simp add: loop_body_def)

lemma loop_body_Continue:
  assumes "loop_body c ev = Continue c' out"
  shows "\<exists>now. ev = Frame now"
    and "total_frames c' = total_frames c + 1"
    and "start_time c' = start_time c"
    and "\<forall>x \<in> set out. is_report x"
  using assms
  by (auto simp: loop_body_def Let_def split: event.splits if_splits option.splits)

lemma loop_body_Break_Frame:
  assumes "loop_body c (Frame now) = Break c' out"
  shows "total_frames c' = total_frames c + 1"
    and "ErrCaptureFailed \<notin> set out"
    and "out \<noteq> [] \<and> is_summary (last out)"
  using assms
  by (auto simp: loop_body_def Let_def split: if_splits option.splits)

lemma loop_body_Fault:
  assumes "loop_body c ev = Fault f"
  shows "f = SignedOverflow"
  using assms
  by (auto simp: loop_body_def Let_def split: event.splits if_splits option.splits)

lemma report_not_failure: "is_report x \<Longrightarrow> x \<noteq> ErrCaptureFailed \<and> \<not> is_summary x"
  by (cases x) simp_all

subsection \<open>A run that ends in a failed read\<close>

lemma bench_loop_failed_read:
  assumes "bench_loop c (map Frame ts @ ReadFailed # rest) = (e, c', out)"
    and "ErrCaptureFailed \<in> set out"
  shows "e = Broke \<and> bench_loop c (map Frame ts) = (Waiting, c', butlast out) \<and>
         last out = ErrCaptureFailed \<and> (\<forall>x \<in> set out. \<not> is_summary x) \<and>
         total_frames c' = total_frames c + int (length ts)"
  using assms
proof (induction ts arbitrary: c out)
  case Nil
  then show ?case by (auto simp: loop_body_ReadFailed)
next
  case (Cons t ts)
  show ?case
  proof (cases "loop_body c (Frame t)")
    case (Fault f)
    with Cons.prems show ?thesis by simp
  next
    case (Break c1 o1)
    with Cons.prems have "c' = c1" "out = o1" by simp_all
    with Break Cons.prems(2) loop_body_Break_Frame(2) show ?thesis by blast
  next
    case (Continue c1 o1)
    obtain out' where run: "bench_loop c1 (map Frame ts @ ReadFailed # rest) = (e, c', out')"
      and out: "out = o1 @ out'"
      using Cons.prems(1) Continue by (auto split: prod.splits)
    from Continue have o1: "\<forall>x \<in> set o1. is_report x" by (rule loop_body_Continue)
    with Cons.prems(2) out have "ErrCaptureFailed \<in> set out'"
      using report_not_failure by auto
    with run Cons.IH
    have ih: "e = Broke" "bench_loop c1 (map Frame ts) = (Waiting, c', butlast out')"
      "last out' = ErrCaptureFailed" "\<forall>x \<in> set out'. \<not> is_summary x"
      "total_frames c' = total_frames c1 + int (length ts)"
      by blast+
    from \<open>ErrCaptureFailed \<in> set out'\<close> have ne: "out' \<noteq> []" by auto
    from Continue have "total_frames c1 = total_frames c + 1" by (rule loop_body_Continue)
    with ih(5) have total: "total_frames c' = total_frames c + int (length (t # ts))" by simp
    from ne out have "butlast out = o1 @ butlast out'" "last out = last out'"
      by (simp_all add: butlast_append)
    moreover from o1 ih(4) out have "\<forall>x \<in> set out. \<not> is_summary x"
      using report_not_failure by auto
    ultimately show ?thesis using ih Continue total by simp
  qed
qed

text \<open>
  Claim C7. An iteration whose read fails reports the error, leaves both counters as
  they are and ends the loop. A run that reaches a failed read after the frames \<open>ts\<close>
  ends there: its counters are the ones the frames before the failure have built up
  (the total has grown by their number), the error message is its last output, and no
  summary with an average is printed.
\<close>

theorem failed_read_ends_loop:
  "loop_body c ReadFailed = Break c [ErrCaptureFailed] \<and>
   bench_loop c (ReadFailed # rest) = (Broke, c, [ErrCaptureFailed]) \<and>
   (\<forall>e c' out.
      bench_loop c (map Frame ts @ ReadFailed # rest) = (e, c', out) \<and>
      ErrCaptureFailed \<in> set out \<longrightarrow>
        e = Broke \<and> bench_loop c (map Frame ts) = (Waiting, c', butlast out) \<and>
        last out = ErrCaptureFailed \<and> (\<forall>x \<in> set out. \<not> is_summary x) \<and>
        total_frames c' = total_frames c + int (length ts))"
proof (intro conjI allI impI)
  show "loop_body c ReadFailed = Break c [ErrCaptureFailed]"
    by (rule loop_body_ReadFailed)
  show "bench_loop c (ReadFailed # rest) = (Broke, c, [ErrCaptureFailed])"
    by (simp add: loop_body_ReadFailed)
next
  fix e c' out
  assume "bench_loop c (map Frame ts @ ReadFailed # rest) = (e, c', out) \<and>
          ErrCaptureFailed \<in> set out"
  then have run: "bench_loop c (map Frame ts @ ReadFailed # rest) = (e, c', out)"
    and failed: "ErrCaptureFailed \<in> set out" by simp_all
  note facts = bench_loop_failed_read [OF run failed]
  from facts show "e = Broke" by (rule conjunct1)
  from facts show "bench_loop c (map Frame ts) = (Waiting, c', butlast out)" by simp
  from facts show "last out = ErrCaptureFailed" by simp
  from facts show "\<forall>x \<in> set out. \<not> is_summary x" by simp
  from facts show "total_frames c' = total_frames c + int (length ts)" by simp
qed

lemma two_frames_then_failure:
  "bench_loop (init_counters 0)
     (map Frame [1000000000, 2500000000] @ ReadFailed # [Frame 9000000000])
   = (Broke,
      \<lparr>total_frames = 2, frames_last_second = 0, start_time = 0, last_report = 2500000000\<rparr>,
      [CurrentFPS 1, CurrentFPS 1, ErrCaptureFailed])"
  by (simp add: init_counters_def loop_body_def Let_def duration_cast_seconds_def
      test_duration_sec_def INT_MAX_def time_diff_def INT64_MIN_def INT64_MAX_def)

theorem failed_read_ends_loop_witness:
  "bench_loop (init_counters 0)
     (map Frame [1000000000, 2500000000] @ ReadFailed # [Frame 9000000000])
   = (Broke,
      \<lparr>total_frames = 2, frames_last_second = 0, start_time = 0, last_report = 2500000000\<rparr>,
      [CurrentFPS 1, CurrentFPS 1, ErrCaptureFailed]) \<and>
   ErrCaptureFailed \<in> set [CurrentFPS 1, CurrentFPS 1, ErrCaptureFailed] \<and>
   bench_loop (init_counters 0) (map Frame [1000000000, 2500000000])
   = (Waiting,
      \<lparr>total_frames = 2, frames_last_second = 0, start_time = 0, last_report = 2500000000\<rparr>,
      [CurrentFPS 1, CurrentFPS 1])"
proof -
  have failed: "ErrCaptureFailed \<in> set [CurrentFPS 1, CurrentFPS 1, ErrCaptureFailed]"
    by simp
  have "bench_loop (init_counters 0) (map Frame [1000000000, 2500000000])
   = (Waiting,
      \<lparr>total_frames = 2, frames_last_second = 0, start_time = 0, last_report = 2500000000\<rparr>,
      butlast [CurrentFPS 1, CurrentFPS 1, ErrCaptureFailed])"
    using failed_read_ends_loop
      [of "init_counters 0" "[Frame 9000000000]" "[1000000000, 2500000000]"]
      two_frames_then_failure failed
    by blast
  then have "bench_loop (init_counters 0) (map Frame [1000000000, 2500000000])
   = (Waiting,
      \<lparr>total_frames = 2, frames_last_second = 0, start_time = 0, last_report = 2500000000\<rparr>,
      [CurrentFPS 1, CurrentFPS 1])" by simp
  with two_frames_then_failure failed show ?thesis by (intro conjI)
qed

subsection \<open>How a run of the loop ends\<close>

lemma bench_loop_error_last:
  "bench_loop c evs = (e, c', out) \<Longrightarrow> ErrCaptureFailed \<in> set out \<Longrightarrow>
   e = Broke \<and> last out = ErrCaptureFailed"
proof (induction evs arbitrary: c out)
  case Nil
  then show ?case by simp
next
  case (Cons ev evs)
  show ?case
  proof (cases "loop_body c ev")
    case (Fault f)
    with Cons.prems show ?thesis by simp
  next
    case (Break c1 o1)
    with Cons.prems have eq: "e = Broke" "out = o1" by simp_all
    show ?thesis
    proof (cases ev)
      case ReadFailed
      with Break eq show ?thesis by (auto simp: loop_body_ReadFailed)
    next
      case (Frame now)
      with Break eq Cons.prems(2) loop_body_Break_Frame(2) show ?thesis by blast
    qed
  next
    case (Continue c1 o1)
    obtain out' where run: "bench_loop c1 evs = (e, c', out')" and out: "out = o1 @ out'"
      using Cons.prems(1) Continue by (auto split: prod.splits)
    from Continue have "\<forall>x \<in> set o1. is_report x" by (rule loop_body_Continue)
    with Cons.prems(2) out have mem: "ErrCaptureFailed \<in> set out'"
      using report_not_failure by auto
    then have "out' \<noteq> []" by auto
    with out have "last out = last out'" by simp
    with Cons.IH [OF run mem] show ?thesis by simp
  qed
qed

lemma bench_loop_summary_last:
  "bench_loop c evs = (e, c', out) \<Longrightarrow> \<exists>x \<in> set out. is_summary x \<Longrightarrow>
   e = Broke \<and> is_summary (last out)"
proof (induction evs arbitrary: c out)
  case Nil
  then show ?case by simp
next
  case (Cons ev evs)
  show ?case
  proof (cases "loop_body c ev")
    case (Fault f)
    with Cons.prems show ?thesis by simp
  next
    case (Break c1 o1)
    with Cons.prems have eq: "e = Broke" "out = o1" by simp_all
    show ?thesis
    proof (cases ev)
      case ReadFailed
      with Break eq Cons.prems(2) show ?thesis by (auto simp: loop_body_ReadFailed)
    next
      case (Frame now)
      with Break eq loop_body_Break_Frame(3) show ?thesis by blast
    qed
  next
    case (Continue c1 o1)
    obtain out' where run: "bench_loop c1 evs = (e, c', out')" and out: "out = o1 @ out'"
      using Cons.prems(1) Continue by (auto split: prod.splits)
    from Continue have "\<forall>x \<in> set o1. is_report x" by (rule loop_body_Continue)
    with Cons.prems(2) out have mem: "\<exists>x \<in> set out'. is_summary x"
      using report_not_failure by auto
    then have "out' \<noteq> []" by auto
    with out have "last out = last out'" by simp
    with Cons.IH [OF run mem] show ?thesis by simp
  qed
qed

subsection \<open>Runs in pieces\<close>

lemma bench_loop_append:
  "bench_loop c evs1 = (Waiting, c1, out1) \<Longrightarrow>
   bench_loop c (evs1 @ evs2) =
     (case bench_loop c1 evs2 of (e, c2, out2) \<Rightarrow> (e, c2, out1 @ out2))"
proof (induction evs1 arbitrary: c out1)
  case Nil
  then show ?case by (simp split: prod.splits)
next
  case (Cons ev evs1)
  show ?case
  proof (cases "loop_body c ev")
    case (Continue c' o1)
    with Cons.prems obtain o2 where rest: "bench_loop c' evs1 = (Waiting, c1, o2)"
      and out1: "out1 = o1 @ o2"
      by (auto split: prod.splits)
    from Cons.IH [OF rest] Continue out1 show ?thesis
      by (simp split: prod.splits)
  next
    case (Break c' o1)
    with Cons.prems show ?thesis by simp
  next
    case (Fault f)
    with Cons.prems show ?thesis by simp
  qed
qed

section \<open>Properties of whole runs\<close>

subsection \<open>Evaluating the start of a run\<close>

lemma parseArgs_no_arguments: "parseArgs [prog] = Inr Map.empty"
  by (simp add: parseArgs_def parseArgs_loop_end)

lemma device_of_default: "device_of ''0'' = Inr 0"
  by (simp add: device_of_def stoi_def scan_int_def isspace_def isdigit_def digits_val_def
      digit_val_def INT_MIN_def INT_MAX_def)

lemma fourcc_MJPG: "fourccFromString ''MJPG'' = 1196444237"
  by (simp add: fourccFromString_def fourcc_def)

subsection \<open>From the opened device to the end of the run\<close>

text \<open>
  When the command line is parsed without the help flag, the device number, the
  resolution and the format are accepted and the device opens, the rest of the run is
  the setup of the device, the loop, and the release.
\<close>

lemma main_after_startup:
  assumes "parseArgs argv = Inr args" and "''help'' \<notin> dom args"
    and "device_of (case args ''device'' of Some d \<Rightarrow> d | None \<Rightarrow> ''0'') = Inr device"
    and "(case args ''resolution'' of None \<Rightarrow> Some (640, 480, 30)
          | Some res \<Rightarrow> parseResolution res) = Some (width, height, fps)"
    and "format = (case args ''format'' of Some f \<Rightarrow> f | None \<Rightarrow> ''MJPG'')"
    and "fourccFromString format \<noteq> 0" and "opens device"
    and "bench_loop (init_counters t0) evs = (e, c, out)"
  shows "main argv opens t0 evs =
     (case e of
        Broke \<Rightarrow>
          (Exit 0, [Open device, SetWidth width, SetHeight height,
                    SetFourcc (fourccFromString format), SetFps fps,
                    Testing width height fps format] @ out @ [Release])
      | Faulted f \<Rightarrow>
          (Undefined f, [Open device, SetWidth width, SetHeight height,
                         SetFourcc (fourccFromString format), SetFps fps,
                         Testing width height fps format] @ out)
      | Waiting \<Rightarrow>
          (Blocked, [Open device, SetWidth width, SetHeight height,
                     SetFourcc (fourccFromString format), SetFps fps,
                     Testing width height fps format] @ out))"
  using assms unfolding main_def Let_def
  by (simp split: loop_end.splits)

section \<open>Counting frames\<close>

subsection \<open>Differences of clock readings\<close>

lemma time_diff_fit:
  assumes "readings_fit rs" and "a \<in> set rs" and "b \<in> set rs"
  shows "time_diff a b = Some (sint a - sint b)"
proof -
  from assms have "sint a - sint b \<le> INT64_MAX" and "sint b - sint a \<le> INT64_MAX"
    by (simp_all add: readings_fit_def)
  then show ?thesis by (simp add: time_diff_def INT64_MIN_def INT64_MAX_def)
qed


lemma time_diff_Some: "time_diff a b = Some d \<Longrightarrow> d = sint a - sint b"
  by (simp add: time_diff_def Let_def split: if_splits)

lemma duration_cast_seconds_nonneg:
  "0 \<le> d \<Longrightarrow> duration_cast_seconds d = d div 1000000000"
  by (cases "d = 0") (simp_all add: duration_cast_seconds_def)

subsection \<open>Frames before and at the end of the test duration\<close>

lemma loop_body_early_frame:
  assumes "readings_fit rs" and "now \<in> set rs" and "start_time c \<in> set rs"
    and "last_report c \<in> set rs"
    and "duration_cast_seconds (sint now - sint (start_time c)) < test_duration_sec"
    and "total_frames c < INT_MAX" and "counters_ok c"
  shows "\<exists>c' out. loop_body c (Frame now) = Continue c' out \<and>
           total_frames c' = total_frames c + 1 \<and> start_time c' = start_time c \<and>
           last_report c' \<in> set rs \<and> counters_ok c' \<and> (\<forall>x \<in> set out. is_report x)"
proof -
  note d1 = time_diff_fit [OF assms(1,2,3)] and d2 = time_diff_fit [OF assms(1,2,4)]
  from assms(2,4,5,6,7) show ?thesis
    by (auto simp: loop_body_def Let_def counters_ok_def d1 d2)
qed


lemma bench_loop_early_frames:
  assumes "readings_fit rs" and "set ts \<subseteq> set rs" and "start_time c \<in> set rs"
    and "last_report c \<in> set rs"
    and "\<forall>t \<in> set ts. duration_cast_seconds (sint t - sint (start_time c)) < test_duration_sec"
    and "total_frames c + int (length ts) \<le> INT_MAX" and "counters_ok c"
  shows "\<exists>c' out. bench_loop c (map Frame ts) = (Waiting, c', out) \<and>
           total_frames c' = total_frames c + int (length ts) \<and>
           start_time c' = start_time c \<and> last_report c' \<in> set rs \<and>
           counters_ok c' \<and> (\<forall>x \<in> set out. is_report x)"
  using assms(2-)
proof (induction ts arbitrary: c)
  case Nil
  then show ?case by simp
next
  case (Cons t ts)
  from Cons.prems have "t \<in> set rs"
    and "duration_cast_seconds (sint t - sint (start_time c)) < test_duration_sec"
    and "total_frames c < INT_MAX" by simp_all
  from loop_body_early_frame [OF assms(1) this(1) Cons.prems(2,3) this(2,3) Cons.prems(6)]
  obtain c1 o1 where step: "loop_body c (Frame t) = Continue c1 o1"
    and c1: "total_frames c1 = total_frames c + 1" "start_time c1 = start_time c"
      "last_report c1 \<in> set rs" "counters_ok c1" "\<forall>x \<in> set o1. is_report x"
    by blast
  from Cons.prems c1
  have "set ts \<subseteq> set rs" "start_time c1 \<in> set rs"
    and "\<forall>t \<in> set ts. duration_cast_seconds (sint t - sint (start_time c1)) < test_duration_sec"
    and "total_frames c1 + int (length ts) \<le> INT_MAX" by simp_all
  from Cons.IH [OF this(1,2) c1(3) this(3,4) c1(4)]
  obtain c' o2 where rest: "bench_loop c1 (map Frame ts) = (Waiting, c', o2)"
    and c': "total_frames c' = total_frames c1 + int (length ts)"
      "start_time c' = start_time c1" "last_report c' \<in> set rs" "counters_ok c'"
      "\<forall>x \<in> set o2. is_report x"
    by blast
  from step rest have "bench_loop c (map Frame (t # ts)) = (Waiting, c', o1 @ o2)" by simp
  moreover from c1 c' have "total_frames c' = total_frames c + int (length (t # ts))"
    "start_time c' = start_time c" by simp_all
  moreover from c1(5) c'(5) have "\<forall>x \<in> set (o1 @ o2). is_report x" by auto
  ultimately show ?case using c'(3,4) by blast
qed

lemma counters_ok_init: "counters_ok (init_counters t0)"
  by (simp add: counters_ok_def init_counters_def)

subsection \<open>Frames that all arrive at the same reading\<close>


subsection \<open>The summary\<close>






section \<open>The exit code after a failed read\<close>

text \<open>
  Claim C10. Take a run in which the command line is parsed without the help flag,
  the device number, the resolution and the format are accepted, and the device opens.
  When the camera delivers the frames \<open>ts\<close>, after which the loop is still running,
  and the next read fails, the program reports the failure, releases the device as its
  last action and returns 0 from \<open>main\<close>. This is so when the very first read fails,
  and when the frames before the failure are fewer than \<open>INT_MAX\<close> and are read
  before five whole seconds have passed, at clock readings that are not too far apart
  for their differences. Every run that leaves the loop at a \<open>break\<close>, so also the
  one that completes the five seconds, releases the device last and returns 0 as well.
\<close>

theorem failed_read_exit_code:
  assumes "parseArgs argv = Inr args" and "''help'' \<notin> dom args"
    and "device_of (case args ''device'' of Some d \<Rightarrow> d | None \<Rightarrow> ''0'') = Inr device"
    and "(case args ''resolution'' of None \<Rightarrow> Some (640, 480, 30)
          | Some res \<Rightarrow> parseResolution res) = Some (width, height, fps)"
    and "format = (case args ''format'' of Some f \<Rightarrow> f | None \<Rightarrow> ''MJPG'')"
    and "fourccFromString format \<noteq> 0" and "opens device"
  shows "(\<forall>ts c out rest.
            bench_loop (init_counters t0) (map Frame ts) = (Waiting, c, out) \<longrightarrow>
              main argv opens t0 (map Frame ts @ ReadFailed # rest)
                = (Exit 0, [Open device, SetWidth width, SetHeight height,
                            SetFourcc (fourccFromString format), SetFps fps,
                            Testing width height fps format]
                           @ out @ [ErrCaptureFailed, Release])) \<and>
         (\<forall>rest.
            main argv opens t0 (ReadFailed # rest)
              = (Exit 0, [Open device, SetWidth width, SetHeight height,
                          SetFourcc (fourccFromString format), SetFps fps,
                          Testing width height fps format, ErrCaptureFailed, Release])) \<and>
         (\<forall>ts rest.
            readings_fit (t0 # ts) \<and>
            (\<forall>t \<in> set ts. duration_cast_seconds (sint t - sint t0) < test_duration_sec) \<and>
            int (length ts) < INT_MAX \<longrightarrow>
              (\<exists>out. (\<forall>x \<in> set out. is_report x) \<and>
                 main argv opens t0 (map Frame ts @ ReadFailed # rest)
                   = (Exit 0, [Open device, SetWidth width, SetHeight height,
                               SetFourcc (fourccFromString format), SetFps fps,
                               Testing width height fps format]
                              @ out @ [ErrCaptureFailed, Release]))) \<and>
         (\<forall>evs c out.
            bench_loop (init_counters t0) evs = (Broke, c, out) \<longrightarrow>
              main argv opens t0 evs
                = (Exit 0, [Open device, SetWidth width, SetHeight height,
                            SetFourcc (fourccFromString format), SetFps fps,
                            Testing width height fps format]
                           @ out @ [Release]))"
proof -
  let ?start = "[Open device, SetWidth width, SetHeight height,
                 SetFourcc (fourccFromString format), SetFps fps,
                 Testing width height fps format]"
  have failing: "main argv opens t0 (map Frame ts @ ReadFailed # rest)
      = (Exit 0, ?start @ out @ [ErrCaptureFailed, Release])"
    if frames: "bench_loop (init_counters t0) (map Frame ts) = (Waiting, c, out)"
    for ts c out rest
  proof -
    have "bench_loop (init_counters t0) (map Frame ts @ ReadFailed # rest)
        = (Broke, c, out @ [ErrCaptureFailed])"
      using bench_loop_append [OF frames, of "ReadFailed # rest"]
      by (simp add: loop_body_ReadFailed)
    from main_after_startup [where opens = opens and device = device, OF assms this]
    show ?thesis by simp
  qed
  have first: "main argv opens t0 (ReadFailed # rest)
      = (Exit 0, ?start @ [ErrCaptureFailed, Release])" for rest
    using failing [of "[]" "init_counters t0" "[]" rest] by simp
  have early: "\<exists>out. (\<forall>x \<in> set out. is_report x) \<and>
      main argv opens t0 (map Frame ts @ ReadFailed # rest)
        = (Exit 0, ?start @ out @ [ErrCaptureFailed, Release])"
    if h: "readings_fit (t0 # ts) \<and>
      (\<forall>t \<in> set ts. duration_cast_seconds (sint t - sint t0) < test_duration_sec) \<and>
      int (length ts) < INT_MAX"
    for ts rest
  proof -
    let ?c = "init_counters t0"
    have init: "start_time ?c = t0" "last_report ?c = t0" "total_frames ?c = 0"
      by (simp_all add: init_counters_def)
    from h init
    have "readings_fit (t0 # ts)" "set ts \<subseteq> set (t0 # ts)" "start_time ?c \<in> set (t0 # ts)"
      "last_report ?c \<in> set (t0 # ts)"
      "\<forall>t \<in> set ts. duration_cast_seconds (sint t - sint (start_time ?c)) < test_duration_sec"
      "total_frames ?c + int (length ts) \<le> INT_MAX" by auto
    from bench_loop_early_frames [OF this counters_ok_init]
    obtain c out where "bench_loop ?c (map Frame ts) = (Waiting, c, out)"
      and "\<forall>x \<in> set out. is_report x" by blast
    with failing show ?thesis by blast
  qed
  have broke: "main argv opens t0 evs = (Exit 0, ?start @ out @ [Release])"
    if "bench_loop (init_counters t0) evs = (Broke, c, out)" for evs c out
    using main_after_startup [where opens = opens and device = device, OF assms that]
    by simp
  from failing first early broke show ?thesis
    by (intro conjI allI impI) simp_all
qed

lemma one_frame_running:
  "bench_loop (init_counters 0) (map Frame [1000000000])
     = (Waiting,
        \<lparr>total_frames = 1, frames_last_second = 0, start_time = 0, last_report = 1000000000\<rparr>,
        [CurrentFPS 1])"
  by (simp add: init_counters_def loop_body_def Let_def duration_cast_seconds_def
      test_duration_sec_def INT_MAX_def time_diff_def INT64_MIN_def INT64_MAX_def)

theorem failed_read_exit_code_witness:
  "main [''camtest''] (\<lambda>d. True) 0 (map Frame [1000000000] @ ReadFailed # [])
     = (Exit 0, [Open 0, SetWidth 640, SetHeight 480, SetFourcc 1196444237, SetFps 30,
                 Testing 640 480 30 ''MJPG'', CurrentFPS 1, ErrCaptureFailed, Release]) \<and>
   main [''camtest''] (\<lambda>d. True) 0 [ReadFailed]
     = (Exit 0, [Open 0, SetWidth 640, SetHeight 480, SetFourcc 1196444237, SetFps 30,
                 Testing 640 480 30 ''MJPG'', ErrCaptureFailed, Release])"
proof -
  have args: "parseArgs [''camtest''] = Inr Map.empty" by (rule parseArgs_no_arguments)
  have flag: "''help'' \<notin> dom (Map.empty :: args)" by simp
  have dev: "device_of (case (Map.empty :: args) ''device'' of Some d \<Rightarrow> d | None \<Rightarrow> ''0'')
      = Inr 0" by (simp add: device_of_default)
  have res: "(case (Map.empty :: args) ''resolution'' of None \<Rightarrow> Some (640, 480, 30)
      | Some res \<Rightarrow> parseResolution res) = Some (640, 480, 30)" by simp
  have fmt: "''MJPG'' = (case (Map.empty :: args) ''format'' of Some f \<Rightarrow> f | None \<Rightarrow> ''MJPG'')"
    by simp
  have code: "fourccFromString ''MJPG'' \<noteq> 0" by (simp add: fourcc_MJPG)
  have dev_opens: "(\<lambda>d::int. True) 0" by simp
  note inst = failed_read_exit_code
    [where opens = "\<lambda>d. True" and device = 0 and ?t0.0 = 0,
      OF args flag dev res fmt code dev_opens]
  from inst [THEN conjunct1, rule_format, OF one_frame_running, of "[]"]
  have a: "main [''camtest''] (\<lambda>d. True) 0 (map Frame [1000000000] @ ReadFailed # [])
     = (Exit 0, [Open 0, SetWidth 640, SetHeight 480, SetFourcc 1196444237, SetFps 30,
                 Testing 640 480 30 ''MJPG'', CurrentFPS 1, ErrCaptureFailed, Release])"
    by (simp add: fourcc_MJPG)
  from inst [THEN conjunct2, THEN conjunct1, rule_format, of "[]"]
  have b: "main [''camtest''] (\<lambda>d. True) 0 [ReadFailed]
     = (Exit 0, [Open 0, SetWidth 640, SetHeight 480, SetFourcc 1196444237, SetFps 30,
                 Testing 640 480 30 ''MJPG'', ErrCaptureFailed, Release])"
    by (simp add: fourcc_MJPG)
  from a b show ?thesis by (rule conjI)
qed

section \<open>The counters from step to step\<close>

lemma duration_cast_seconds_ge_1:
  "1 \<le> duration_cast_seconds d \<longleftrightarrow> 1000000000 \<le> d"
proof (cases "0 \<le> d")
  case True
  then show ?thesis by (simp add: duration_cast_seconds_nonneg) linarith
next
  case False
  then have "sgn d = - 1" and "0 \<le> \<bar>d\<bar> div 1000000000" by simp_all
  then have "duration_cast_seconds d \<le> 0" by (simp add: duration_cast_seconds_def)
  with False show ?thesis by simp
qed

text \<open>An iteration has a fault exactly when it is not defined.\<close>

lemma step_defined_iff: "step_defined c ev \<longleftrightarrow> after_step (loop_body c ev) \<noteq> None"
  by (cases ev)
    (auto simp: step_defined_def loop_body_def Let_def split: option.splits if_splits)

lemma after_step_cases:
  assumes "after_step (loop_body c ev) = Some (c', out)"
  shows "ev = ReadFailed \<and> c' = c \<and> out = [ErrCaptureFailed] \<or>
         (\<exists>now. ev = Frame now \<and> total_frames c' = total_frames c + 1 \<and>
            start_time c' = start_time c \<and>
            (if 1 \<le> duration_cast_seconds (sint now - sint (last_report c))
             then frames_last_second c' = 0 \<and> last_report c' = now \<and>
                  hd out = CurrentFPS (frames_last_second c + 1) \<and>
                  length (filter is_report out) = 1
             else frames_last_second c' = frames_last_second c + 1 \<and>
                  last_report c' = last_report c \<and> filter is_report out = []))"
  using assms
  by (cases ev)
    (auto simp: loop_body_def Let_def dest!: time_diff_Some split: if_splits option.splits)

lemma bench_loop_reports:
  "bench_loop c evs = (e, c', out) \<Longrightarrow>
   total_frames c \<le> total_frames c' \<and>
   int (length (filter is_report out)) * 1000000000
     \<le> sint (last_report c') - sint (last_report c)"
proof (induction evs arbitrary: c out)
  case Nil
  then show ?case by simp
next
  case (Cons ev evs)
  show ?case
  proof (cases "loop_body c ev")
    case (Fault f)
    with Cons.prems show ?thesis by simp
  next
    case (Break c1 o1)
    with Cons.prems have eq: "c' = c1" "out = o1" by simp_all
    from Break have "after_step (loop_body c ev) = Some (c1, o1)" by simp
    from after_step_cases [OF this] eq show ?thesis
      by (auto simp: duration_cast_seconds_ge_1 split: if_splits)
  next
    case (Continue c1 o1)
    obtain out' where run: "bench_loop c1 evs = (e, c', out')" and out: "out = o1 @ out'"
      using Cons.prems Continue by (auto split: prod.splits)
    from Continue have "after_step (loop_body c ev) = Some (c1, o1)" by simp
    from after_step_cases [OF this]
    have "total_frames c \<le> total_frames c1 \<and>
      int (length (filter is_report o1)) * 1000000000
        \<le> sint (last_report c1) - sint (last_report c)"
      by (auto simp: duration_cast_seconds_ge_1 split: if_splits)
    with Cons.IH [OF run] out show ?thesis by (simp add: algebra_simps)
  qed
qed

text \<open>
  Claim C8 says that the per-interval counter is reset exactly once per elapsed
  second. The loop looks at the clock only after a frame has been read, and it resets
  the counter once when one whole second or more has passed since the last report: a
  frame that arrives three and a half seconds after the start brings one report and one
  reset for three elapsed seconds.
\<close>

theorem reset_once_per_second_counterexample:
  "bench_loop (init_counters 0) [Frame 3500000000]
     = (Waiting,
        \<lparr>total_frames = 1, frames_last_second = 0, start_time = 0, last_report = 3500000000\<rparr>,
        [CurrentFPS 1]) \<and>
   duration_cast_seconds (sint (3500000000 :: 64 word) - sint (0 :: 64 word)) = 3 \<and>
   int (length (filter is_report [CurrentFPS 1]))
     \<noteq> duration_cast_seconds (sint (3500000000 :: 64 word) - sint (0 :: 64 word))"
  by (simp add: init_counters_def loop_body_def Let_def duration_cast_seconds_def
      test_duration_sec_def INT_MAX_def time_diff_def INT64_MIN_def INT64_MAX_def)

text \<open>
  Claim C8, amended. Take an iteration of the loop that has no undefined behaviour:
  neither counter stands at \<open>INT_MAX\<close>, and the two differences of clock readings it
  computes fit a signed 64-bit integer. In it the running total does not decrease, and
  the per-interval counter does not decrease unless it is reset to zero. An iteration
  that reads a frame adds one to the total; it resets the per-interval counter exactly
  when one whole second or more has passed since the last report, right after printing
  the count as the one report of the iteration, and otherwise adds one to it. The reset
  leaves the total as it is. Over any run of the loop the total does not decrease, and
  the resets are at most one per whole second that has passed between the first and the
  last report time, not exactly one.
\<close>

theorem counters_step:
  assumes "step_defined c ev"
  shows "(\<exists>c' out.
            after_step (loop_body c ev) = Some (c', out) \<and>
            total_frames c \<le> total_frames c' \<and>
            (frames_last_second c \<le> frames_last_second c' \<or> frames_last_second c' = 0) \<and>
            (\<forall>now. ev = Frame now \<longrightarrow>
               total_frames c' = total_frames c + 1 \<and>
               (if 1 \<le> duration_cast_seconds (sint now - sint (last_report c))
                then frames_last_second c' = 0 \<and> last_report c' = now \<and>
                     hd out = CurrentFPS (frames_last_second c + 1) \<and>
                     length (filter is_report out) = 1
                else frames_last_second c' = frames_last_second c + 1 \<and>
                     last_report c' = last_report c \<and> filter is_report out = []))) \<and>
         (case bench_loop c evs of
            (e, c'', out') \<Rightarrow>
              total_frames c \<le> total_frames c'' \<and>
              int (length (filter is_report out'))
                \<le> duration_cast_seconds (sint (last_report c'') - sint (last_report c)))"
proof (rule conjI)
  from assms obtain c' out where step: "after_step (loop_body c ev) = Some (c', out)"
    unfolding step_defined_iff by auto
  note cases = after_step_cases [OF step]
  from cases have 1: "total_frames c \<le> total_frames c'" by auto
  from cases
  have 2: "frames_last_second c \<le> frames_last_second c' \<or> frames_last_second c' = 0"
    by (auto split: if_splits)
  from cases have 3: "\<forall>now. ev = Frame now \<longrightarrow>
      total_frames c' = total_frames c + 1 \<and>
      (if 1 \<le> duration_cast_seconds (sint now - sint (last_report c))
       then frames_last_second c' = 0 \<and> last_report c' = now \<and>
            hd out = CurrentFPS (frames_last_second c + 1) \<and>
            length (filter is_report out) = 1
       else frames_last_second c' = frames_last_second c + 1 \<and>
            last_report c' = last_report c \<and> filter is_report out = [])"
    by auto
  from step 1 2 3 show "\<exists>c' out.
      after_step (loop_body c ev) = Some (c', out) \<and>
      total_frames c \<le> total_frames c' \<and>
      (frames_last_second c \<le> frames_last_second c' \<or> frames_last_second c' = 0) \<and>
      (\<forall>now. ev = Frame now \<longrightarrow>
         total_frames c' = total_frames c + 1 \<and>
         (if 1 \<le> duration_cast_seconds (sint now - sint (last_report c))
          then frames_last_second c' = 0 \<and> last_report c' = now \<and>
               hd out = CurrentFPS (frames_last_second c + 1) \<and>
               length (filter is_report out) = 1
          else frames_last_second c' = frames_last_second c + 1 \<and>
               last_report c' = last_report c \<and> filter is_report out = []))"
    by (intro exI [of _ c'] exI [of _ out] conjI)
next
  obtain e c'' out' where run: "bench_loop c evs = (e, c'', out')"
    by (cases "bench_loop c evs") auto
  let ?n = "int (length (filter is_report out'))"
  let ?d = "sint (last_report c'') - sint (last_report c)"
  from bench_loop_reports [OF run] have total: "total_frames c \<le> total_frames c''"
    and le: "?n * 1000000000 \<le> ?d" by simp_all
  have "0 \<le> ?n" by simp
  with le have "0 \<le> ?d" by linarith
  moreover from le have "?n \<le> ?d div 1000000000" by linarith
  ultimately have "?n \<le> duration_cast_seconds ?d"
    by (simp add: duration_cast_seconds_nonneg)
  with total run show "case bench_loop c evs of
      (e, c'', out') \<Rightarrow>
        total_frames c \<le> total_frames c'' \<and>
        int (length (filter is_report out'))
          \<le> duration_cast_seconds (sint (last_report c'') - sint (last_report c))"
    by simp
qed

theorem counters_step_witness:
  "step_defined (init_counters 0) (Frame 3500000000) \<and>
   after_step (loop_body (init_counters 0) (Frame 3500000000))
     = Some (\<lparr>total_frames = 1, frames_last_second = 0, start_time = 0,
               last_report = 3500000000\<rparr>, [CurrentFPS 1]) \<and>
   1 \<le> duration_cast_seconds (sint (3500000000 :: 64 word) - sint (last_report (init_counters 0))) \<and>
   (\<exists>c' out. after_step (loop_body (init_counters 0) (Frame 3500000000)) = Some (c', out) \<and>
      total_frames c' = total_frames (init_counters 0) + 1 \<and> frames_last_second c' = 0 \<and>
      length (filter is_report out) = 1)"
proof -
  have defined: "step_defined (init_counters 0) (Frame 3500000000)"
    by (simp add: step_defined_def init_counters_def INT_MAX_def time_diff_def
        INT64_MIN_def INT64_MAX_def)
  have step: "after_step (loop_body (init_counters 0) (Frame 3500000000))
     = Some (\<lparr>total_frames = 1, frames_last_second = 0, start_time = 0,
               last_report = 3500000000\<rparr>, [CurrentFPS 1])"
    by (simp add: init_counters_def loop_body_def Let_def duration_cast_seconds_def
        test_duration_sec_def INT_MAX_def time_diff_def INT64_MIN_def INT64_MAX_def)
  have late: "1 \<le> duration_cast_seconds
      (sint (3500000000 :: 64 word) - sint (last_report (init_counters 0)))"
    by (simp add: init_counters_def duration_cast_seconds_def)
  from counters_step [OF defined, of "[]"] late
  have "\<exists>c' out. after_step (loop_body (init_counters 0) (Frame 3500000000)) = Some (c', out) \<and>
      total_frames c' = total_frames (init_counters 0) + 1 \<and> frames_last_second c' = 0 \<and>
      length (filter is_report out) = 1"
    by (elim conjE exE) (rule exI, rule exI, auto)
  with defined step late show ?thesis by (intro conjI)
qed

section \<open>The format encoder\<close>

lemma four_bytes_less:
  fixes a b c d :: nat
  assumes "a < 256" and "b < 256" and "c < 256" and "d < 256"
  shows "a + 256 * b + 65536 * c + 16777216 * d < 4294967296"
  using assms by linarith

lemma unat_of_char: "unat (of_char c :: 32 word) = of_char c"
proof -
  have "unat (of_nat (of_char c) :: 32 word) = of_char c mod 2 ^ 32"
    by (simp add: unat_of_nat)
  moreover have "(of_char c :: nat) + 256 * 0 + 65536 * 0 + 16777216 * 0 < 4294967296"
    by (rule four_bytes_less) simp_all
  then have "(of_char c :: nat) mod 2 ^ 32 = of_char c" by simp
  ultimately show ?thesis by (simp add: of_nat_of_char)
qed

lemma unat_fourcc:
  "unat (fourcc c1 c2 c3 c4)
     = of_char c1 + 256 * of_char c2 + 65536 * of_char c3 + 16777216 * of_char c4"
proof -
  have "unat (fourcc c1 c2 c3 c4)
     = (of_char c1 + 256 * of_char c2 + 65536 * of_char c3 + 16777216 * of_char c4) mod 2 ^ 32"
    unfolding fourcc_def push_bit_eq_mult
    by (simp add: unat_word_ariths unat_of_char mod_simps mult.commute)
  also have "\<dots> = of_char c1 + 256 * of_char c2 + 65536 * of_char c3 + 16777216 * of_char c4"
    using four_bytes_less [of "of_char c1" "of_char c2" "of_char c3" "of_char c4"] by simp
  finally show ?thesis .
qed

lemma byte_split:
  fixes a b a' b' :: nat
  assumes "a < 256" and "a' < 256" and eq: "a + 256 * b = a' + 256 * b'"
  shows "a = a' \<and> b = b'"
proof -
  from eq have "(a + 256 * b) mod 256 = (a' + 256 * b') mod 256" by simp
  with assms(1,2) have "a = a'" by simp
  with eq show ?thesis by simp
qed

lemma fourcc_eq_iff:
  "fourcc c1 c2 c3 c4 = fourcc d1 d2 d3 d4 \<longleftrightarrow> c1 = d1 \<and> c2 = d2 \<and> c3 = d3 \<and> c4 = d4"
proof
  assume "fourcc c1 c2 c3 c4 = fourcc d1 d2 d3 d4"
  then have "unat (fourcc c1 c2 c3 c4) = unat (fourcc d1 d2 d3 d4)" by simp
  then have eq: "(of_char c1 :: nat) + 256 * (of_char c2 + 256 * (of_char c3 + 256 * of_char c4))
      = of_char d1 + 256 * (of_char d2 + 256 * (of_char d3 + 256 * of_char d4))"
    by (simp add: unat_fourcc)
  have b: "(of_char c1 :: nat) < 256" "(of_char c2 :: nat) < 256" "(of_char c3 :: nat) < 256"
    "(of_char d1 :: nat) < 256" "(of_char d2 :: nat) < 256" "(of_char d3 :: nat) < 256"
    by simp_all
  from byte_split [OF b(1) b(4) eq]
  have 1: "(of_char c1 :: nat) = of_char d1"
    and eq2: "(of_char c2 :: nat) + 256 * (of_char c3 + 256 * of_char c4)
                = of_char d2 + 256 * (of_char d3 + 256 * of_char d4)" by simp_all
  from byte_split [OF b(2) b(5) eq2]
  have 2: "(of_char c2 :: nat) = of_char d2"
    and eq3: "(of_char c3 :: nat) + 256 * of_char c4 = of_char d3 + 256 * of_char d4"
    by simp_all
  from byte_split [OF b(3) b(6) eq3]
  have 3: "(of_char c3 :: nat) = of_char d3" and 4: "(of_char c4 :: nat) = of_char d4"
    by simp_all
  from 1 2 3 4 show "c1 = d1 \<and> c2 = d2 \<and> c3 = d3 \<and> c4 = d4" by simp
next
  assume "c1 = d1 \<and> c2 = d2 \<and> c3 = d3 \<and> c4 = d4"
  then show "fourcc c1 c2 c3 c4 = fourcc d1 d2 d3 d4" by simp
qed

lemma fourcc_zero: "fourcc (CHR 0x00) (CHR 0x00) (CHR 0x00) (CHR 0x00) = 0"
  by (simp add: fourcc_def)

lemma length_four:
  "length xs = 4 \<Longrightarrow> xs = [xs ! 0, xs ! 1, xs ! 2, xs ! 3]"
  by (cases xs; cases "tl xs"; cases "tl (tl xs)"; cases "tl (tl (tl xs))") auto

lemma fourccFromString_zero_iff:
  assumes "length format = 4"
  shows "fourccFromString format = 0 \<longleftrightarrow> format = replicate 4 (CHR 0x00)"
proof -
  from assms have fmt: "format = [format ! 0, format ! 1, format ! 2, format ! 3]"
    by (rule length_four)
  have "fourccFromString format = 0 \<longleftrightarrow>
      fourcc (format ! 0) (format ! 1) (format ! 2) (format ! 3)
        = fourcc (CHR 0x00) (CHR 0x00) (CHR 0x00) (CHR 0x00)"
    using assms by (simp add: fourccFromString_def fourcc_zero)
  also have "\<dots> \<longleftrightarrow> format ! 0 = CHR 0x00 \<and> format ! 1 = CHR 0x00 \<and>
      format ! 2 = CHR 0x00 \<and> format ! 3 = CHR 0x00"
    by (rule fourcc_eq_iff)
  also have "\<dots> \<longleftrightarrow> [format ! 0, format ! 1, format ! 2, format ! 3] = replicate 4 (CHR 0x00)"
    by (simp add: numeral_eq_Suc)
  finally show ?thesis using fmt by simp
qed

lemma fourccFromString_inj:
  assumes "length f = 4" and "length g = 4" and "fourccFromString f = fourccFromString g"
  shows "f = g"
proof -
  from assms(1) have f: "f = [f ! 0, f ! 1, f ! 2, f ! 3]" by (rule length_four)
  from assms(2) have g: "g = [g ! 0, g ! 1, g ! 2, g ! 3]" by (rule length_four)
  from assms have "fourcc (f ! 0) (f ! 1) (f ! 2) (f ! 3) = fourcc (g ! 0) (g ! 1) (g ! 2) (g ! 3)"
    by (simp add: fourccFromString_def)
  then have "f ! 0 = g ! 0 \<and> f ! 1 = g ! 1 \<and> f ! 2 = g ! 2 \<and> f ! 3 = g ! 3"
    by (simp only: fourcc_eq_iff)
  with f g show ?thesis by metis
qed

lemma main_invalid_format:
  assumes "parseArgs argv = Inr args" and "''help'' \<notin> dom args"
    and "device_of (case args ''device'' of Some d \<Rightarrow> d | None \<Rightarrow> ''0'') = Inr device"
    and "\<forall>res. args ''resolution'' = Some res \<longrightarrow> parseResolution res \<noteq> None"
    and "args ''format'' = Some format" and "fourccFromString format = 0"
  shows "main argv opens t0 evs = (Exit 1, [ErrInvalidFormat format])"
  using assms unfolding main_def Let_def
  by (auto split: option.splits)

text \<open>
  Claim C3 says that every string of length 4 gets a non-zero code. A
  \<open>std::string\<close> may hold NUL characters, and the string of four NUL characters has
  length 4 and the code 0.
\<close>

theorem four_nul_counterexample:
  "length [CHR 0x00, CHR 0x00, CHR 0x00, CHR 0x00] = 4 \<and>
   fourccFromString [CHR 0x00, CHR 0x00, CHR 0x00, CHR 0x00] = 0"
  by (simp add: fourccFromString_def fourcc_def)

text \<open>
  Claim C3, amended. For a format string whose length is not 4 the encoder fails: it
  returns 0, and a run that gets as far as the encoder with such a format reports the
  invalid format and returns 1 without opening the device. For a string of length 4
  the code is 0 only for the string of four NUL characters; every other string of
  length 4, so every string of length 4 without a NUL character, as the tokens of a
  command line are, gets a non-zero code. The code is a function of the string alone,
  and two strings of length 4 with the same code are equal.
\<close>

theorem fourcc_code:
  "(length format \<noteq> 4 \<longrightarrow> fourccFromString format = 0) \<and>
   (length format = 4 \<longrightarrow>
      (fourccFromString format = 0 \<longleftrightarrow> format = replicate 4 (CHR 0x00))) \<and>
   (length format = 4 \<and> CHR 0x00 \<notin> set format \<longrightarrow> fourccFromString format \<noteq> 0) \<and>
   (length format = 4 \<and> length format' = 4 \<and>
      fourccFromString format = fourccFromString format' \<longrightarrow> format = format') \<and>
   (\<forall>args device.
      parseArgs argv = Inr args \<and> ''help'' \<notin> dom args \<and>
      device_of (case args ''device'' of Some d \<Rightarrow> d | None \<Rightarrow> ''0'') = Inr device \<and>
      (\<forall>res. args ''resolution'' = Some res \<longrightarrow> parseResolution res \<noteq> None) \<and>
      args ''format'' = Some format \<and> length format \<noteq> 4 \<longrightarrow>
        main argv opens t0 evs = (Exit 1, [ErrInvalidFormat format]))"
proof (intro conjI impI allI)
  show "fourccFromString format = 0" if "length format \<noteq> 4"
    using that by (simp add: fourccFromString_def)
  show "fourccFromString format = 0 \<longleftrightarrow> format = replicate 4 (CHR 0x00)"
    if "length format = 4"
    using that by (rule fourccFromString_zero_iff)
  show "fourccFromString format \<noteq> 0" if "length format = 4 \<and> CHR 0x00 \<notin> set format"
  proof
    assume "fourccFromString format = 0"
    with that have "format = replicate 4 (CHR 0x00)" by (simp add: fourccFromString_zero_iff)
    then have "CHR 0x00 \<in> set format" by simp
    with that show False by simp
  qed
  show "format = format'"
    if "length format = 4 \<and> length format' = 4 \<and>
        fourccFromString format = fourccFromString format'"
    using that by (simp add: fourccFromString_inj)
next
  fix args device
  assume h: "parseArgs argv = Inr args \<and> ''help'' \<notin> dom args \<and>
      device_of (case args ''device'' of Some d \<Rightarrow> d | None \<Rightarrow> ''0'') = Inr device \<and>
      (\<forall>res. args ''resolution'' = Some res \<longrightarrow> parseResolution res \<noteq> None) \<and>
      args ''format'' = Some format \<and> length format \<noteq> 4"
  then have "fourccFromString format = 0" by (simp add: fourccFromString_def)
  with h show "main argv opens t0 evs = (Exit 1, [ErrInvalidFormat format])"
    by (intro main_invalid_format [of argv args device]) simp_all
qed


theorem fourcc_code_witness:
  "length ''MJP'' \<noteq> 4 \<and> fourccFromString ''MJP'' = 0 \<and>
   main [''camtest'', ''-f'', ''MJP''] (\<lambda>d. True) 0 [] = (Exit 1, [ErrInvalidFormat ''MJP'']) \<and>
   length ''YUYV'' = 4 \<and> CHR 0x00 \<notin> set ''YUYV'' \<and> fourccFromString ''YUYV'' \<noteq> 0"
proof -
  have short: "length ''MJP'' \<noteq> 4" by simp
  have long: "length ''YUYV'' = 4 \<and> CHR 0x00 \<notin> set ''YUYV''" by simp
  have f: "value_key ''-f'' = Some ''format''"
    by (simp add: value_key_def)
  have parse: "parseArgs [''camtest'', ''-f'', ''MJP''] = Inr [''format'' \<mapsto> ''MJP'']"
    by (simp add: parseArgs_def parseArgs_loop_value f parseArgs_loop_end)
  have a: "fourccFromString ''MJP'' = 0"
    using fourcc_code [of "''MJP''"] short by blast
  have b: "main [''camtest'', ''-f'', ''MJP''] (\<lambda>d. True) 0 [] = (Exit 1, [ErrInvalidFormat ''MJP''])"
    using fourcc_code [of "''MJP''" _ "[''camtest'', ''-f'', ''MJP'']" "\<lambda>d. True" 0 "[]"]
      short parse device_of_default
    by simp
  have c: "fourccFromString ''YUYV'' \<noteq> 0"
    using fourcc_code [of "''YUYV''"] long by blast
  from short a b long c show ?thesis by (intro conjI) simp_all
qed

section \<open>Reading decimal numerals\<close>

subsection \<open>Digits\<close>

lemma digit_char_cases:
  fixes d :: nat
  assumes "d < 10"
  obtains "d = 0" | "d = 1" | "d = 2" | "d = 3" | "d = 4" | "d = 5" | "d = 6" | "d = 7"
    | "d = 8" | "d = 9"
proof -
  from assms have "d = 0 \<or> d = 1 \<or> d = 2 \<or> d = 3 \<or> d = 4 \<or> d = 5 \<or> d = 6 \<or> d = 7 \<or>
      d = 8 \<or> d = 9" by presburger
  with that show thesis by blast
qed

lemma digit_char_props:
  assumes "d < 10"
  shows "isdigit (digit_char d)" and "digit_val (digit_char d) = int d"
    and "\<not> isspace (digit_char d)" and "digit_char d \<noteq> CHR ''-''"
    and "digit_char d \<noteq> CHR ''+''" and "digit_char d \<noteq> CHR ''/''"
  using assms
  by (cases d rule: digit_char_cases;
      simp add: digit_char_def isdigit_def digit_val_def isspace_def)+

lemma digits_val_snoc: "digits_val (ds @ [c]) = 10 * digits_val ds + digit_val c"
  by (simp add: digits_val_def)

lemma decimal_props:
  "decimal n \<noteq> [] \<and> list_all isdigit (decimal n) \<and> digits_val (decimal n) = int n"
proof (induction n rule: decimal.induct)
  case (1 n)
  show ?case
  proof (cases "n < 10")
    case True
    then show ?thesis
      by (subst (1 2 3) decimal.simps) (simp add: digit_char_props digits_val_def)
  next
    case False
    with 1 have ih: "list_all isdigit (decimal (n div 10))"
      "digits_val (decimal (n div 10)) = int (n div 10)" by simp_all
    have "n mod 10 < 10" by simp
    note d = digit_char_props [OF this]
    have "10 * int (n div 10) + int (n mod 10) = int n" by presburger
    with False ih d show ?thesis
      by (subst (1 2 3) decimal.simps) (simp add: digits_val_snoc)
  qed
qed

lemma hd_decimal: "\<exists>d < 10. hd (decimal n) = digit_char d"
proof (induction n rule: decimal.induct)
  case (1 n)
  show ?case
  proof (cases "n < 10")
    case True
    then show ?thesis by (subst decimal.simps) auto
  next
    case False
    with 1 obtain d where "d < 10" and "hd (decimal (n div 10)) = digit_char d" by auto
    moreover have "decimal (n div 10) \<noteq> []" by (simp add: decimal_props)
    ultimately show ?thesis using False by (subst decimal.simps) auto
  qed
qed

subsection \<open>What \<open>scan_int\<close> accepts\<close>

lemma isdigit_not_sign_space:
  "isdigit c \<Longrightarrow> c \<noteq> CHR ''-'' \<and> c \<noteq> CHR ''+'' \<and> \<not> isspace c"
  by (auto simp: isdigit_def isspace_def)

lemma sign_not_space: "\<not> isspace (CHR ''-'')" "\<not> isspace (CHR ''+'')"
  by (simp_all add: isspace_def)

lemma no_digit_ahead_dropWhile: "no_digit_ahead (dropWhile isdigit s)"
  by (induction s) simp_all

lemma takeWhile_digits:
  "list_all isdigit ds \<Longrightarrow> no_digit_ahead r \<Longrightarrow>
   takeWhile isdigit (ds @ r) = ds \<and> dropWhile isdigit (ds @ r) = r"
  by (induction ds) (cases r; simp)+

lemma dropWhile_spaces:
  "spaces sp \<Longrightarrow> \<not> isspace c \<Longrightarrow> dropWhile isspace (sp @ c # r) = c # r"
  by (induction sp) (simp_all add: spaces_def)

lemma scan_int_digits:
  assumes "ds \<noteq> []" and "list_all isdigit ds" and "no_digit_ahead r" and "spaces sp"
  shows "scan_int (sp @ ds @ r) = Some (digits_val ds, r)"
    and "scan_int (sp @ CHR ''+'' # ds @ r) = Some (digits_val ds, r)"
    and "scan_int (sp @ CHR ''-'' # ds @ r) = Some (- digits_val ds, r)"
proof -
  from assms(1) obtain d ds' where ds: "ds = d # ds'" by (cases ds) auto
  with assms(2) have d: "isdigit d" by simp
  note nd = isdigit_not_sign_space [OF d]
  note tw = takeWhile_digits [OF assms(2,3)]
  from nd assms(4) have "dropWhile isspace (sp @ ds @ r) = ds @ r"
    by (simp add: ds dropWhile_spaces)
  with tw assms(1) nd show "scan_int (sp @ ds @ r) = Some (digits_val ds, r)"
    by (simp add: scan_int_def ds)
  from assms(4) have "dropWhile isspace (sp @ CHR ''+'' # ds @ r) = CHR ''+'' # ds @ r"
    by (simp add: dropWhile_spaces sign_not_space)
  with tw assms(1) show "scan_int (sp @ CHR ''+'' # ds @ r) = Some (digits_val ds, r)"
    by (simp add: scan_int_def)
  from assms(4) have "dropWhile isspace (sp @ CHR ''-'' # ds @ r) = CHR ''-'' # ds @ r"
    by (simp add: dropWhile_spaces sign_not_space)
  with tw assms(1) show "scan_int (sp @ CHR ''-'' # ds @ r) = Some (- digits_val ds, r)"
    by (simp add: scan_int_def)
qed

lemma scan_int_accepts:
  assumes "spaces sp" and "numeral_text n v" and "no_digit_ahead r"
  shows "scan_int (sp @ n @ r) = Some (v, r)"
proof -
  from assms(2) obtain c cs where n: "n = c # cs" by (cases n) auto
  show ?thesis
  proof (cases "c = CHR ''-'' \<or> c = CHR ''+''")
    case True
    with assms(2) n have "cs \<noteq> []" "list_all isdigit cs" by (auto split: if_splits)
    from scan_int_digits(2,3) [OF this assms(3,1)] True assms(2) n show ?thesis
      by (auto split: if_splits)
  next
    case False
    with assms(2) n have "n \<noteq> []" "list_all isdigit n" "v = digits_val n" by auto
    with scan_int_digits(1) [OF this(1,2) assms(3,1)] show ?thesis by simp
  qed
qed

lemma scan_int_shape:
  assumes "scan_int s = Some (v, r)"
  shows "\<exists>sp n. s = sp @ n @ r \<and> spaces sp \<and> numeral_text n v \<and> no_digit_ahead r"
proof -
  let ?sp = "takeWhile isspace s" and ?s1 = "dropWhile isspace s"
  let ?s2 = "if ?s1 \<noteq> [] \<and> (hd ?s1 = CHR ''-'' \<or> hd ?s1 = CHR ''+'') then tl ?s1 else ?s1"
  let ?ds = "takeWhile isdigit ?s2"
  from assms have ne: "?ds \<noteq> []" and r: "r = dropWhile isdigit ?s2"
    and v: "v = (if ?s1 \<noteq> [] \<and> hd ?s1 = CHR ''-'' then - digits_val ?ds else digits_val ?ds)"
    by (auto simp: scan_int_def Let_def split: if_splits)
  have sp: "spaces ?sp" by (simp add: spaces_def list_all_iff) (meson set_takeWhileD)
  have digits: "list_all isdigit ?ds" by (simp add: list_all_iff) (meson set_takeWhileD)
  have s: "s = ?sp @ ?s1" by simp
  have s2: "?s2 = ?ds @ r" by (simp add: r)
  have nda: "no_digit_ahead r" unfolding r by (rule no_digit_ahead_dropWhile)
  from ne obtain d ds' where ds: "?ds = d # ds'" by (cases ?ds) auto
  with digits have "isdigit d" by simp
  note nd = isdigit_not_sign_space [OF this]
  show ?thesis
  proof (cases "?s1 \<noteq> [] \<and> (hd ?s1 = CHR ''-'' \<or> hd ?s1 = CHR ''+'')")
    case True
    then have s1: "?s1 = hd ?s1 # ?ds @ r" using s2 by (metis list.collapse)
    from True ne digits v have "numeral_text (hd ?s1 # ?ds) v" by auto
    moreover from s s1 have "s = ?sp @ (hd ?s1 # ?ds) @ r" by (metis append_Cons)
    ultimately show ?thesis using sp nda by blast
  next
    case False
    then have s1: "?s1 = ?ds @ r" using s2 by argo
    with ds have "?s1 \<noteq> []" "hd ?s1 = d" by simp_all
    with v nd have "v = digits_val ?ds" by simp
    with ds digits nd have "numeral_text ?ds v" by (metis numeral_text.simps(2))
    moreover from s s1 have "s = ?sp @ ?ds @ r" by metis
    ultimately show ?thesis using sp nda by blast
  qed
qed

subsection \<open>Reading back a decimal numeral\<close>

lemma numeral_text_decimal: "numeral_text (decimal n) (int n)"
proof -
  obtain d where "d < 10" and hd: "hd (decimal n) = digit_char d"
    using hd_decimal by blast
  then have sign: "hd (decimal n) \<noteq> CHR ''-''" "hd (decimal n) \<noteq> CHR ''+''"
    by (simp_all add: digit_char_props)
  obtain c cs where dec: "decimal n = c # cs"
    using decimal_props [of n] by (cases "decimal n") auto
  with sign decimal_props [of n] show ?thesis by simp
qed

lemma scan_int_decimal:
  "no_digit_ahead r \<Longrightarrow> scan_int (decimal n @ r) = Some (int n, r)"
  using scan_int_accepts [of "[]" "decimal n" "int n" r]
  by (simp add: spaces_def numeral_text_decimal)

lemma stoi_decimal:
  "stoi (decimal n) = (if int n \<le> INT_MAX then Inr (int n) else Inl out_of_range)"
  using scan_int_decimal [of "[]" n]
  by (simp add: stoi_def INT_MIN_def INT_MAX_def)

lemma decimal_no_path: "take 10 (decimal n) \<noteq> ''/dev/video''"
proof
  assume eq: "take 10 (decimal n) = ''/dev/video''"
  obtain c cs where dec: "decimal n = c # cs"
    using decimal_props [of n] by (cases "decimal n") auto
  with eq have "hd (decimal n) = CHR ''/''" by simp
  moreover obtain d where "d < 10" and "hd (decimal n) = digit_char d"
    using hd_decimal by blast
  ultimately show False by (simp add: digit_char_props)
qed

section \<open>The device number\<close>

text \<open>
  Claim C6 says that \<open>/dev/video<N>\<close> gives the device number \<open>N\<close> for every
  numeric suffix. The number is an \<open>int\<close>, read by \<open>std::stoi\<close>: for
  \<open>/dev/video2147483648\<close> it throws \<open>std::out_of_range\<close>, and the program ends
  with that exception.
\<close>

theorem device_suffix_counterexample:
  "device_of ''/dev/video2147483648'' \<noteq> Inr 2147483648 \<and>
   device_of ''/dev/video2147483648'' = Inl out_of_range \<and>
   main [''camtest'', ''-d'', ''/dev/video2147483648''] (\<lambda>d. True) 0 []
     = (Terminate out_of_range, [])"
proof -
  have d: "value_key ''-d'' = Some ''device''" by (simp add: value_key_def)
  have parse: "parseArgs [''camtest'', ''-d'', ''/dev/video2147483648'']
      = Inr [''device'' \<mapsto> ''/dev/video2147483648'']"
    by (simp add: parseArgs_def parseArgs_loop_value d parseArgs_loop_end)
  have dev: "device_of ''/dev/video2147483648'' = Inl out_of_range"
    by (simp add: device_of_def stoi_def scan_int_def isspace_def isdigit_def digits_val_def
        digit_val_def INT_MIN_def INT_MAX_def)
  from parse dev show ?thesis by (simp add: main_def)
qed

lemma stoi_numeral_text:
  assumes "numeral_text n v"
  shows "stoi n = (if in_int_range v then Inr v else Inl out_of_range)"
proof -
  from scan_int_accepts [of "[]" n v "[]"] assms have "scan_int n = Some (v, [])"
    by (simp add: spaces_def)
  then show ?thesis by (auto simp: stoi_def in_int_range_def)
qed

lemma numeral_text_no_path:
  assumes "numeral_text n v"
  shows "take 10 n \<noteq> ''/dev/video''"
proof
  assume eq: "take 10 n = ''/dev/video''"
  from assms obtain c cs where n: "n = c # cs" by (cases n) auto
  with eq have "c = CHR ''/''" by simp
  with assms n show False by (simp add: isdigit_def)
qed

text \<open>
  Claim C6, amended. For every device argument \<open>/dev/video<N>\<close> whose suffix is a
  numeral, that is a run of digits with or without a sign before it, leading zeros
  allowed, and for every bare argument that is such a numeral, the device number is the
  value of the numeral when it lies in the range of \<open>int\<close>; when it does not, the
  conversion throws \<open>std::out_of_range\<close>. The numeral written for a number \<open>k\<close>
  without sign and leading zeros is among these texts, with the value \<open>k\<close>.
\<close>

theorem device_number:
  "(numeral_text n v \<longrightarrow>
      device_of (''/dev/video'' @ n) = (if in_int_range v then Inr v else Inl out_of_range) \<and>
      device_of n = (if in_int_range v then Inr v else Inl out_of_range)) \<and>
   numeral_text (decimal k) (int k)"
proof (intro conjI impI)
  assume n: "numeral_text n v"
  then show "device_of (''/dev/video'' @ n)
      = (if in_int_range v then Inr v else Inl out_of_range)"
    by (simp add: device_of_def stoi_numeral_text)
  from n show "device_of n = (if in_int_range v then Inr v else Inl out_of_range)"
    by (simp add: device_of_def stoi_numeral_text numeral_text_no_path)
next
  show "numeral_text (decimal k) (int k)" by (rule numeral_text_decimal)
qed

theorem device_number_witness:
  "numeral_text ''3'' 3 \<and> device_of ''/dev/video3'' = Inr 3 \<and>
   numeral_text ''2'' 2 \<and> device_of ''2'' = Inr 2 \<and>
   numeral_text ''03'' 3 \<and> device_of ''/dev/video03'' = Inr 3 \<and>
   numeral_text ''007'' 7 \<and> device_of ''007'' = Inr 7 \<and>
   numeral_text ''-1'' (- 1) \<and> device_of ''-1'' = Inr (- 1)"
proof -
  have t: "numeral_text ''3'' 3" "numeral_text ''2'' 2" "numeral_text ''03'' 3"
    "numeral_text ''007'' 7" "numeral_text ''-1'' (- 1)"
    by (simp_all add: isdigit_def digits_val_def digit_val_def)
  have r: "in_int_range 3" "in_int_range 2" "in_int_range 7" "in_int_range (- 1)"
    by (simp_all add: in_int_range_def INT_MIN_def INT_MAX_def)
  have a: "device_of ''/dev/video3'' = Inr 3"
    using device_number [of "''3''" 3] t r by simp
  have b: "device_of ''2'' = Inr 2"
    using device_number [of "''2''" 2] t r by simp
  have c: "device_of ''/dev/video03'' = Inr 3"
    using device_number [of "''03''" 3] t r by simp
  have d: "device_of ''007'' = Inr 7"
    using device_number [of "''007''" 7] t r by simp
  have e: "device_of ''-1'' = Inr (- 1)"
    using device_number [of "''-1''" "- 1"] t r by simp
  from t a b c d e show ?thesis by (intro conjI)
qed

section \<open>The resolution decoder\<close>

subsection \<open>What the two extractions accept\<close>

lemma read_int_iff:
  "read_int s = Some (v, r) \<longleftrightarrow>
     in_int_range v \<and> (\<exists>sp n. s = sp @ n @ r \<and> spaces sp \<and> numeral_text n v \<and> no_digit_ahead r)"
proof
  assume "read_int s = Some (v, r)"
  then have "scan_int s = Some (v, r)" and "in_int_range v"
    by (auto simp: read_int_def in_int_range_def split: option.splits if_splits)
  with scan_int_shape show "in_int_range v \<and>
      (\<exists>sp n. s = sp @ n @ r \<and> spaces sp \<and> numeral_text n v \<and> no_digit_ahead r)"
    by blast
next
  assume "in_int_range v \<and>
      (\<exists>sp n. s = sp @ n @ r \<and> spaces sp \<and> numeral_text n v \<and> no_digit_ahead r)"
  then have "in_int_range v" and "scan_int s = Some (v, r)"
    using scan_int_accepts by blast+
  then show "read_int s = Some (v, r)"
    by (auto simp: read_int_def in_int_range_def)
qed

lemma read_char_iff:
  "read_char s = Some (c, r) \<longleftrightarrow> \<not> isspace c \<and> (\<exists>sp. s = sp @ c # r \<and> spaces sp)"
proof
  assume "read_char s = Some (c, r)"
  then have dw: "dropWhile isspace s = c # r"
    by (auto simp: read_char_def split: list.splits)
  then have "\<not> isspace c" by (metis hd_dropWhile list.sel(1) list.distinct(1))
  moreover have "s = takeWhile isspace s @ c # r" using dw by (metis takeWhile_dropWhile_id)
  moreover have "spaces (takeWhile isspace s)"
    by (simp add: spaces_def list_all_iff) (meson set_takeWhileD)
  ultimately show "\<not> isspace c \<and> (\<exists>sp. s = sp @ c # r \<and> spaces sp)" by blast
next
  assume "\<not> isspace c \<and> (\<exists>sp. s = sp @ c # r \<and> spaces sp)"
  then show "read_char s = Some (c, r)"
    by (auto simp: read_char_def dropWhile_spaces)
qed

lemma no_digit_ahead_spaces:
  "spaces sp \<Longrightarrow> \<not> isdigit c \<Longrightarrow> no_digit_ahead (sp @ c # r)"
  by (cases sp) (auto simp: spaces_def dest: isdigit_not_sign_space)

lemma separators_no_digit: "\<not> isdigit (CHR ''x'')" "\<not> isdigit (CHR ''@'')"
  "\<not> isspace (CHR ''x'')" "\<not> isspace (CHR ''@'')"
  by (simp_all add: isdigit_def isspace_def)

lemma parseResolution_chain:
  "parseResolution s = Some (w, h, f) \<longleftrightarrow>
     (\<exists>r1 r2 r3 r4 r5.
        read_int s = Some (w, r1) \<and> read_char r1 = Some (CHR ''x'', r2) \<and>
        read_int r2 = Some (h, r3) \<and> read_char r3 = Some (CHR ''@'', r4) \<and>
        read_int r4 = Some (f, r5))"
  by (auto simp: parseResolution_def split: option.splits)

subsection \<open>The decoder accepts the resolution texts and nothing else\<close>

lemma resolution_textI:
  assumes "s = sp1 @ n1 @ sp2 @ CHR ''x'' # sp3 @ n2 @ sp4 @ CHR ''@'' # sp5 @ n3 @ rest"
    and "spaces sp1" "spaces sp2" "spaces sp3" "spaces sp4" "spaces sp5"
    and "numeral_text n1 w" "numeral_text n2 h" "numeral_text n3 f" "no_digit_ahead rest"
    and "in_int_range w" "in_int_range h" "in_int_range f"
  shows "resolution_text s w h f"
  unfolding resolution_text_def
  apply (rule exI [of _ sp1], rule exI [of _ n1], rule exI [of _ sp2], rule exI [of _ sp3])
  apply (rule exI [of _ n2], rule exI [of _ sp4], rule exI [of _ sp5], rule exI [of _ n3])
  apply (rule exI [of _ rest])
  using assms apply (intro conjI)
  apply assumption+
  done

lemma parseResolution_accepts:
  assumes "resolution_text s w h f"
  shows "parseResolution s = Some (w, h, f)"
proof -
  from assms obtain sp1 n1 sp2 sp3 n2 sp4 sp5 n3 rest where
    s: "s = sp1 @ n1 @ sp2 @ CHR ''x'' # sp3 @ n2 @ sp4 @ CHR ''@'' # sp5 @ n3 @ rest"
    and sp: "spaces sp1" "spaces sp2" "spaces sp3" "spaces sp4" "spaces sp5"
    and n: "numeral_text n1 w" "numeral_text n2 h" "numeral_text n3 f"
    and rest: "no_digit_ahead rest"
    and range: "in_int_range w" "in_int_range h" "in_int_range f"
    unfolding resolution_text_def by blast
  let ?r4 = "sp5 @ n3 @ rest"
  let ?r3 = "sp4 @ CHR ''@'' # ?r4"
  let ?r2 = "sp3 @ n2 @ ?r3"
  let ?r1 = "sp2 @ CHR ''x'' # ?r2"
  have "no_digit_ahead ?r1" and "no_digit_ahead ?r3"
    using sp by (simp_all add: no_digit_ahead_spaces separators_no_digit)
  with sp n range rest s
  have 1: "read_int s = Some (w, ?r1)" and 3: "read_int ?r2 = Some (h, ?r3)"
    and 5: "read_int ?r4 = Some (f, rest)"
    unfolding read_int_iff by blast+
  have 2: "read_char ?r1 = Some (CHR ''x'', ?r2)"
    and 4: "read_char ?r3 = Some (CHR ''@'', ?r4)"
    using sp by (simp_all add: read_char_def dropWhile_spaces separators_no_digit)
  from 1 2 3 4 5 show ?thesis unfolding parseResolution_chain by blast
qed

lemma parseResolution_shape:
  assumes "parseResolution s = Some (w, h, f)"
  shows "resolution_text s w h f"
proof -
  from assms obtain r1 r2 r3 r4 r5 where
    1: "read_int s = Some (w, r1)" and 2: "read_char r1 = Some (CHR ''x'', r2)"
    and 3: "read_int r2 = Some (h, r3)" and 4: "read_char r3 = Some (CHR ''@'', r4)"
    and 5: "read_int r4 = Some (f, r5)"
    unfolding parseResolution_chain by blast
  from 1 obtain sp1 n1 where a: "s = sp1 @ n1 @ r1" "spaces sp1" "numeral_text n1 w"
    "in_int_range w" unfolding read_int_iff by blast
  from 2 obtain sp2 where b: "r1 = sp2 @ CHR ''x'' # r2" "spaces sp2"
    unfolding read_char_iff by blast
  from 3 obtain sp3 n2 where c: "r2 = sp3 @ n2 @ r3" "spaces sp3" "numeral_text n2 h"
    "in_int_range h" unfolding read_int_iff by blast
  from 4 obtain sp4 where d: "r3 = sp4 @ CHR ''@'' # r4" "spaces sp4"
    unfolding read_char_iff by blast
  from 5 obtain sp5 n3 where e: "r4 = sp5 @ n3 @ r5" "spaces sp5" "numeral_text n3 f"
    "in_int_range f" "no_digit_ahead r5" unfolding read_int_iff by blast
  have "s = sp1 @ n1 @ sp2 @ CHR ''x'' # sp3 @ n2 @ sp4 @ CHR ''@'' # sp5 @ n3 @ r5"
    by (simp add: a(1) b(1) c(1) d(1) e(1))
  then show ?thesis
    using a(2) b(2) c(2) d(2) e(2) a(3) c(3) e(3) e(5) a(4) c(4) e(4)
    by (rule resolution_textI)
qed

subsection \<open>Texts of the form \<open>W s1 H s2 FPS\<close>\<close>

lemma read_int_decimal:
  "int n \<le> INT_MAX \<Longrightarrow> no_digit_ahead r \<Longrightarrow> read_int (decimal n @ r) = Some (int n, r)"
  by (simp add: read_int_def scan_int_decimal INT_MIN_def INT_MAX_def)

lemma read_char_here: "\<not> isspace c \<Longrightarrow> read_char (c # r) = Some (c, r)"
  by (simp add: read_char_def)

lemma parseResolution_decimal:
  assumes "int a \<le> INT_MAX" "int b \<le> INT_MAX" "int c \<le> INT_MAX"
    and "\<not> isdigit s1" "\<not> isspace s1" "\<not> isdigit s2" "\<not> isspace s2"
  shows "parseResolution (decimal a @ s1 # decimal b @ s2 # decimal c)
     = (if s1 = CHR ''x'' \<and> s2 = CHR ''@'' then Some (int a, int b, int c) else None)"
proof -
  have 1: "read_int (decimal a @ s1 # decimal b @ s2 # decimal c)
      = Some (int a, s1 # decimal b @ s2 # decimal c)"
    using assms by (simp add: read_int_decimal)
  have 3: "read_int (decimal b @ s2 # decimal c) = Some (int b, s2 # decimal c)"
    using assms by (simp add: read_int_decimal)
  have 5: "read_int (decimal c) = Some (int c, [])"
    using assms read_int_decimal [of c "[]"] by simp
  from 1 3 5 assms show ?thesis
    by (simp add: parseResolution_def read_char_here)
qed

lemma main_invalid_resolution:
  assumes "parseArgs argv = Inr args" and "''help'' \<notin> dom args"
    and "device_of (case args ''device'' of Some d \<Rightarrow> d | None \<Rightarrow> ''0'') = Inr device"
    and "args ''resolution'' = Some res" and "parseResolution res = None"
  shows "main argv opens t0 evs = (Exit 1, [ErrInvalidResolution])"
  using assms unfolding main_def Let_def
  by (auto split: option.splits)

subsection \<open>The claim about the decoder\<close>

text \<open>
  Claim C2 says that the decoder succeeds if and only if the string has the shape
  \<open><int>x<int>@<int>\<close>. The decoder reads from a stream and never looks at what
  follows the third integer, and every extraction skips white space first:
  \<open>640x480@60fps\<close> and \<open> 640 x 480 @ 60\<close> are decoded to 640, 480 and 60 although
  they do not have that shape.
\<close>

lemma decode_640_480_60_fps: "parseResolution ''640x480@60fps'' = Some (640, 480, 60)"
  by (simp add: parseResolution_def read_int_def read_char_def scan_int_def isspace_def
      isdigit_def digits_val_def digit_val_def INT_MIN_def INT_MAX_def)

lemma decode_640_480_60_spaced: "parseResolution '' 640 x 480 @ 60'' = Some (640, 480, 60)"
  by (simp add: parseResolution_def read_int_def read_char_def scan_int_def isspace_def
      isdigit_def digits_val_def digit_val_def INT_MIN_def INT_MAX_def)

theorem trailing_text_counterexample:
  "parseResolution ''640x480@60fps'' = Some (640, 480, 60) \<and>
   \<not> shape_int_x_int_at_int ''640x480@60fps'' \<and>
   parseResolution '' 640 x 480 @ 60'' = Some (640, 480, 60) \<and>
   \<not> shape_int_x_int_at_int '' 640 x 480 @ 60''"
proof -
  have "\<not> shape_int_x_int_at_int ''640x480@60fps''"
    by (simp add: shape_int_x_int_at_int_def isdigit_def)
  moreover have "\<not> shape_int_x_int_at_int '' 640 x 480 @ 60''"
    by (simp add: shape_int_x_int_at_int_def isdigit_def)
  ultimately show ?thesis
    using decode_640_480_60_fps decode_640_480_60_spaced by (intro conjI)
qed

text \<open>
  Claim C2, amended. For every input string the decoder succeeds if and only if the
  string starts with an integer, the character \<open>x\<close>, an integer, the character \<open>@\<close>
  and an integer, where white space may stand before each of the five, the integers
  are decimal numerals with or without a sign whose values lie in the range of \<open>int\<close>,
  and what follows the third integer is ignored; it then extracts exactly those three
  integers. In particular a text \<open>W s1 H s2 FPS\<close> of three numerals in that range and
  two separator characters that are neither digits nor white space is decoded to the
  three numbers when the separators are \<open>x\<close> and \<open>@\<close>, and fails for any other
  pair. When the decoder fails on the value of the resolution option, the program
  prints the error and returns 1, and does nothing else: no part of the resolution is
  applied.
\<close>

theorem resolution_decoder:
  "(parseResolution s = Some (w, h, f) \<longleftrightarrow> resolution_text s w h f) \<and>
   (int a \<le> INT_MAX \<and> int b \<le> INT_MAX \<and> int c \<le> INT_MAX \<and>
    \<not> isdigit s1 \<and> \<not> isspace s1 \<and> \<not> isdigit s2 \<and> \<not> isspace s2 \<longrightarrow>
      parseResolution (decimal a @ s1 # decimal b @ s2 # decimal c)
        = (if s1 = CHR ''x'' \<and> s2 = CHR ''@'' then Some (int a, int b, int c) else None)) \<and>
   (\<forall>args device res.
      parseArgs argv = Inr args \<and> ''help'' \<notin> dom args \<and>
      device_of (case args ''device'' of Some d \<Rightarrow> d | None \<Rightarrow> ''0'') = Inr device \<and>
      args ''resolution'' = Some res \<and> parseResolution res = None \<longrightarrow>
        main argv opens t0 evs = (Exit 1, [ErrInvalidResolution]))"
proof (intro conjI impI allI)
  show "parseResolution s = Some (w, h, f) \<longleftrightarrow> resolution_text s w h f"
    using parseResolution_shape parseResolution_accepts by blast
  show "parseResolution (decimal a @ s1 # decimal b @ s2 # decimal c)
        = (if s1 = CHR ''x'' \<and> s2 = CHR ''@'' then Some (int a, int b, int c) else None)"
    if "int a \<le> INT_MAX \<and> int b \<le> INT_MAX \<and> int c \<le> INT_MAX \<and>
        \<not> isdigit s1 \<and> \<not> isspace s1 \<and> \<not> isdigit s2 \<and> \<not> isspace s2"
    using that by (intro parseResolution_decimal) simp_all
next
  fix args device res
  assume "parseArgs argv = Inr args \<and> ''help'' \<notin> dom args \<and>
      device_of (case args ''device'' of Some d \<Rightarrow> d | None \<Rightarrow> ''0'') = Inr device \<and>
      args ''resolution'' = Some res \<and> parseResolution res = None"
  then show "main argv opens t0 evs = (Exit 1, [ErrInvalidResolution])"
    by (intro main_invalid_resolution [of argv args device res]) simp_all
qed

theorem resolution_decoder_witness:
  "parseResolution ''640x480@60fps'' = Some (640, 480, 60) \<and>
   resolution_text ''640x480@60fps'' 640 480 60 \<and>
   parseResolution ''640x480@60'' = Some (640, 480, 60) \<and>
   parseResolution ''640X480@60'' = None \<and>
   main [''camtest'', ''-r'', ''640X480@60''] (\<lambda>d. True) 0 [] = (Exit 1, [ErrInvalidResolution])"
proof -
  have dec: "decimal 640 = ''640''" "decimal 480 = ''480''" "decimal 60 = ''60''"
    by (simp_all add: decimal.simps digit_char_def)
  have range: "int 640 \<le> INT_MAX \<and> int 480 \<le> INT_MAX \<and> int 60 \<le> INT_MAX"
    by (simp add: INT_MAX_def)
  have x: "\<not> isdigit (CHR ''x'') \<and> \<not> isspace (CHR ''x'')"
    and X: "\<not> isdigit (CHR ''X'') \<and> \<not> isspace (CHR ''X'')"
    and at: "\<not> isdigit (CHR ''@'') \<and> \<not> isspace (CHR ''@'')"
    by (simp_all add: isdigit_def isspace_def)
  have a: "resolution_text ''640x480@60fps'' 640 480 60"
    using resolution_decoder [of "''640x480@60fps''" 640 480 60] decode_640_480_60_fps
    by blast
  have b: "parseResolution ''640x480@60'' = Some (640, 480, 60)"
    using resolution_decoder [of _ _ _ _ 640 480 60 "CHR ''x''" "CHR ''@''"] range x at dec
    by simp
  have c: "parseResolution ''640X480@60'' = None"
    using resolution_decoder [of _ _ _ _ 640 480 60 "CHR ''X''" "CHR ''@''"] range X at dec
    by simp
  have r: "value_key ''-r'' = Some ''resolution''" by (simp add: value_key_def)
  have parse: "parseArgs [''camtest'', ''-r'', ''640X480@60'']
      = Inr [''resolution'' \<mapsto> ''640X480@60'']"
    by (simp add: parseArgs_def parseArgs_loop_value r parseArgs_loop_end)
  have d: "main [''camtest'', ''-r'', ''640X480@60''] (\<lambda>d. True) 0 []
      = (Exit 1, [ErrInvalidResolution])"
    using resolution_decoder [of _ _ _ _ _ _ _ _ _ "[''camtest'', ''-r'', ''640X480@60'']"
        "\<lambda>d. True" 0 "[]"] parse c device_of_default
    by simp
  from decode_640_480_60_fps a b c d show ?thesis by (intro conjI)
qed

end
